theory Spec2Isabelle
  imports Main "HOL-Library.Word"
begin

unbundle bit_operations_syntax

section \<open>Machine model\<close>

type_synonym u64 = "64 word"
type_synonym byte = "8 word"
type_synonym memory = "u64 \<Rightarrow> byte"

text \<open>The kernel runs in one flat address space of bytes.  All pointers of vm.c
  (\<^verbatim>\<open>pagetable_t\<close>, \<^verbatim>\<open>pte_t *\<close>, \<^verbatim>\<open>char *\<close>) are 64-bit addresses into it.\<close>

record kstate =
  mem :: memory
  freelist :: "u64 list"

datatype panic = Panic string

text \<open>Little-endian 64-bit loads and stores (\<^verbatim>\<open>*pte\<close> and \<^verbatim>\<open>*pte = v\<close>).\<close>

definition read64 :: "memory \<Rightarrow> u64 \<Rightarrow> u64" where
  "read64 m a =
     ucast (m a) OR push_bit 8 (ucast (m (a + 1))) OR push_bit 16 (ucast (m (a + 2)))
     OR push_bit 24 (ucast (m (a + 3))) OR push_bit 32 (ucast (m (a + 4)))
     OR push_bit 40 (ucast (m (a + 5))) OR push_bit 48 (ucast (m (a + 6)))
     OR push_bit 56 (ucast (m (a + 7)))"

definition write64 :: "memory \<Rightarrow> u64 \<Rightarrow> u64 \<Rightarrow> memory" where
  "write64 m a v = (\<lambda>x. if x - a < 8 then ucast (drop_bit (8 * unat (x - a)) v) else m x)"

text \<open>The C library routines \<^verbatim>\<open>memset\<close> and \<^verbatim>\<open>memmove\<close> of string.c, with their
  standard meaning (\<^verbatim>\<open>memmove\<close> copies as if through a temporary buffer).\<close>

definition memset :: "memory \<Rightarrow> u64 \<Rightarrow> byte \<Rightarrow> u64 \<Rightarrow> memory" where
  "memset m dst c n = (\<lambda>x. if x - dst < n then c else m x)"

definition memmove :: "memory \<Rightarrow> u64 \<Rightarrow> u64 \<Rightarrow> u64 \<Rightarrow> memory" where
  "memmove m dst src n = (\<lambda>x. if x - dst < n then m (src + (x - dst)) else m x)"

subsection \<open>Constants and macros of riscv.h\<close>

definition PGSIZE :: u64 where "PGSIZE = 4096"
definition PGSHIFT :: nat where "PGSHIFT = 12"

definition PGROUNDUP :: "u64 \<Rightarrow> u64" where
  "PGROUNDUP sz = (sz + PGSIZE - 1) AND NOT (PGSIZE - 1)"

definition PGROUNDDOWN :: "u64 \<Rightarrow> u64" where
  "PGROUNDDOWN a = a AND NOT (PGSIZE - 1)"

definition PTE_V :: u64 where "PTE_V = 1"
definition PTE_R :: u64 where "PTE_R = 2"
definition PTE_W :: u64 where "PTE_W = 4"
definition PTE_X :: u64 where "PTE_X = 8"
definition PTE_U :: u64 where "PTE_U = 16"

definition PA2PTE :: "u64 \<Rightarrow> u64" where
  "PA2PTE pa = push_bit 10 (drop_bit 12 pa)"

definition PTE2PA :: "u64 \<Rightarrow> u64" where
  "PTE2PA pte = push_bit 12 (drop_bit 10 pte)"

definition PTE_FLAGS :: "u64 \<Rightarrow> u64" where
  "PTE_FLAGS pte = pte AND 0x3FF"

definition PX :: "nat \<Rightarrow> u64 \<Rightarrow> u64" where
  "PX level va = drop_bit (PGSHIFT + 9 * level) va AND 0x1FF"

definition MAXVA :: u64 where
  "MAXVA = push_bit (9 + 9 + 9 + 12 - 1) 1"

subsection \<open>The physical page allocator (kalloc.c)\<close>

definition kalloc :: "kstate \<Rightarrow> kstate \<times> u64" where
  "kalloc s = (case freelist s of [] \<Rightarrow> (s, 0) | p # ps \<Rightarrow> (s\<lparr>freelist := ps\<rparr>, p))"

definition kfree :: "kstate \<Rightarrow> u64 \<Rightarrow> kstate" where
  "kfree s pa = s\<lparr>freelist := pa # freelist s\<rparr>"

section \<open>vm.c\<close>

fun walk_levels :: "nat \<Rightarrow> kstate \<Rightarrow> u64 \<Rightarrow> u64 \<Rightarrow> int \<Rightarrow> kstate \<times> u64" where
  "walk_levels 0 s pagetable va alloc = (s, pagetable + 8 * PX 0 va)"
| "walk_levels (Suc l) s pagetable va alloc =
     (let pte = pagetable + 8 * PX (Suc l) va in
      if read64 (mem s) pte AND PTE_V \<noteq> 0 then
        walk_levels l s (PTE2PA (read64 (mem s) pte)) va alloc
      else if alloc = 0 then (s, 0)
      else (case kalloc s of (s1, pg) \<Rightarrow>
        if pg = 0 then (s1, 0)
        else
          let s2 = s1\<lparr>mem := memset (mem s1) pg 0 PGSIZE\<rparr>;
              s3 = s2\<lparr>mem := write64 (mem s2) pte (PA2PTE pg OR PTE_V)\<rparr>
          in walk_levels l s3 pg va alloc))"

definition walk :: "kstate \<Rightarrow> u64 \<Rightarrow> u64 \<Rightarrow> int \<Rightarrow> panic + kstate \<times> u64" where
  "walk s pagetable va alloc =
     (if va \<ge> MAXVA then Inl (Panic ''walk'')
      else Inr (walk_levels 2 s pagetable va alloc))"

definition walkaddr :: "kstate \<Rightarrow> u64 \<Rightarrow> u64 \<Rightarrow> panic + kstate \<times> u64" where
  "walkaddr s pagetable va =
     (if va \<ge> MAXVA then Inr (s, 0)
      else case walk s pagetable va 0 of
        Inl e \<Rightarrow> Inl e
      | Inr (s1, pte) \<Rightarrow>
          if pte = 0 then Inr (s1, 0)
          else if read64 (mem s1) pte AND PTE_V = 0 then Inr (s1, 0)
          else if read64 (mem s1) pte AND PTE_U = 0 then Inr (s1, 0)
          else Inr (s1, PTE2PA (read64 (mem s1) pte)))"

lemma walk_Inr_lt: "walk s pagetable va alloc = Inr r \<Longrightarrow> va < MAXVA"
  by (auto simp: walk_def split: if_splits)

lemma MAXVA_val: "MAXVA = 0x4000000000"
  by (simp add: MAXVA_def)

lemma unat_plus_PGSIZE: "a < MAXVA \<Longrightarrow> unat (a + PGSIZE) = unat a + 4096"
  by (simp add: MAXVA_val PGSIZE_def unat_word_ariths word_less_nat_alt)

function mappages_loop ::
  "kstate \<Rightarrow> u64 \<Rightarrow> u64 \<Rightarrow> u64 \<Rightarrow> u64 \<Rightarrow> 32 word \<Rightarrow> panic + kstate \<times> int" where
  "mappages_loop s pagetable a last' pa perm =
     (case walk s pagetable a 1 of
        Inl e \<Rightarrow> Inl e
      | Inr (s1, pte) \<Rightarrow>
          if pte = 0 then Inr (s1, - 1)
          else if read64 (mem s1) pte AND PTE_V \<noteq> 0 then Inl (Panic ''mappages: remap'')
          else
            let s2 = s1\<lparr>mem := write64 (mem s1) pte (PA2PTE pa OR scast perm OR PTE_V)\<rparr>
            in if a = last' then Inr (s2, 0)
               else mappages_loop s2 pagetable (a + PGSIZE) last' (pa + PGSIZE) perm)"
  by pat_completeness auto
termination
  apply (relation "measure (\<lambda>(s, pagetable, a, last', pa, perm). 2 ^ 39 - unat a)")
   apply simp
  apply (drule walk_Inr_lt)
  apply (simp add: unat_plus_PGSIZE)
  apply (simp add: MAXVA_val word_less_nat_alt)
  done

declare mappages_loop.simps [simp del]


definition mappages ::
  "kstate \<Rightarrow> u64 \<Rightarrow> u64 \<Rightarrow> u64 \<Rightarrow> u64 \<Rightarrow> 32 word \<Rightarrow> panic + kstate \<times> int" where
  "mappages s pagetable va size' pa perm =
     (if size' = 0 then Inl (Panic ''mappages: size'')
      else mappages_loop s pagetable (PGROUNDDOWN va) (PGROUNDDOWN (va + size' - 1)) pa perm)"

function uvmunmap_loop ::
  "kstate \<Rightarrow> u64 \<Rightarrow> u64 \<Rightarrow> u64 \<Rightarrow> int \<Rightarrow> panic + kstate" where
  "uvmunmap_loop s pagetable a bound do_free =
     (if a < bound then
        (case walk s pagetable a 0 of
           Inl e \<Rightarrow> Inl e
         | Inr (s1, pte) \<Rightarrow>
             if pte = 0 then Inl (Panic ''uvmunmap: walk'')
             else if read64 (mem s1) pte AND PTE_V = 0 then Inl (Panic ''uvmunmap: not mapped'')
             else if PTE_FLAGS (read64 (mem s1) pte) = PTE_V then
               Inl (Panic ''uvmunmap: not a leaf'')
             else
               let s2 = (if do_free \<noteq> 0 then kfree s1 (PTE2PA (read64 (mem s1) pte)) else s1);
                   s3 = s2\<lparr>mem := write64 (mem s2) pte 0\<rparr>
               in uvmunmap_loop s3 pagetable (a + PGSIZE) bound do_free)
      else Inr s)"
  by pat_completeness auto
termination
  apply (relation "measure (\<lambda>(s, pagetable, a, bound, do_free). 2 ^ 39 - unat a)")
   apply simp
  apply (drule walk_Inr_lt)
  apply (simp add: unat_plus_PGSIZE)
  apply (simp add: MAXVA_val word_less_nat_alt)
  done

declare uvmunmap_loop.simps [simp del]

definition uvmunmap :: "kstate \<Rightarrow> u64 \<Rightarrow> u64 \<Rightarrow> u64 \<Rightarrow> int \<Rightarrow> panic + kstate" where
  "uvmunmap s pagetable va npages do_free =
     (if va mod PGSIZE \<noteq> 0 then Inl (Panic ''uvmunmap: not aligned'')
      else uvmunmap_loop s pagetable va (va + npages * PGSIZE) do_free)"



lemma n4095: "(4095 :: u64) = mask 12"
  by (simp add: mask_eq_exp_minus_1)

lemma PGROUNDDOWN_shift: "PGROUNDDOWN a = push_bit 12 (drop_bit 12 a)"
  unfolding PGROUNDDOWN_def PGSIZE_def
  apply (simp add: n4095)
  apply (rule bit_word_eqI)
  apply (auto simp add: bit_simps)
  done

lemma unat_lt64: "unat (a :: u64) < 18446744073709551616"
  using unsigned_less [of a, where 'a = nat] by simp

lemma PGROUNDDOWN_le: "PGROUNDDOWN a \<le> a"
  by (simp add: PGROUNDDOWN_def word_and_le2)

lemma unat_PGROUNDDOWN: "unat (PGROUNDDOWN a) = unat a div 4096 * 4096"
proof -
  have "PGROUNDDOWN a = (a div 4096) * 4096"
    by (simp add: PGROUNDDOWN_shift push_bit_eq_mult drop_bit_eq_div)
  moreover have "unat a div 4096 * 4096 < 18446744073709551616"
    using unat_lt64 [of a] by arith
  ultimately show ?thesis
    by (simp add: unat_word_ariths unat_div)
qed






definition uvmcopy_err :: "kstate \<Rightarrow> u64 \<Rightarrow> u64 \<Rightarrow> panic + kstate \<times> int" where
  "uvmcopy_err s new i =
     (case uvmunmap s new 0 (i div PGSIZE) 1 of
        Inl e \<Rightarrow> Inl e
      | Inr s1 \<Rightarrow> Inr (s1, - 1))"

function uvmcopy_loop ::
  "kstate \<Rightarrow> u64 \<Rightarrow> u64 \<Rightarrow> u64 \<Rightarrow> u64 \<Rightarrow> panic + kstate \<times> int" where
  "uvmcopy_loop s old new i sz =
     (if i < sz then
        (case walk s old i 0 of
           Inl e \<Rightarrow> Inl e
         | Inr (s1, pte) \<Rightarrow>
             if pte = 0 then Inl (Panic ''uvmcopy: pte should exist'')
             else if read64 (mem s1) pte AND PTE_V = 0 then
               Inl (Panic ''uvmcopy: page not present'')
             else
               let pa = PTE2PA (read64 (mem s1) pte);
                   flags = (ucast (PTE_FLAGS (read64 (mem s1) pte)) :: 32 word)
               in case kalloc s1 of (s2, mem') \<Rightarrow>
                    if mem' = 0 then uvmcopy_err s2 new i
                    else
                      let s3 = s2\<lparr>mem := memmove (mem s2) mem' pa PGSIZE\<rparr>
                      in case mappages s3 new i PGSIZE mem' flags of
                           Inl e \<Rightarrow> Inl e
                         | Inr (s4, rc) \<Rightarrow>
                             if rc \<noteq> 0 then uvmcopy_err (kfree s4 mem') new i
                             else uvmcopy_loop s4 old new (i + PGSIZE) sz)
      else Inr (s, 0))"
  by pat_completeness auto
termination
  apply (relation "measure (\<lambda>(s, old, new, i, sz). 2 ^ 39 - unat i)")
   apply simp
  apply (drule walk_Inr_lt)
  apply (simp add: unat_plus_PGSIZE)
  apply (simp add: MAXVA_val word_less_nat_alt)
  done

declare uvmcopy_loop.simps [simp del]

definition uvmcopy :: "kstate \<Rightarrow> u64 \<Rightarrow> u64 \<Rightarrow> u64 \<Rightarrow> panic + kstate \<times> int" where
  "uvmcopy s old new sz = uvmcopy_loop s old new 0 sz"

text \<open>\<^verbatim>\<open>freewalk\<close> recurses into whatever a valid entry without R/W/X points to, so on a
  cyclic table it does not return.  The first argument bounds the recursion depth;
  \<open>None\<close> means the bound was reached.\<close>

function freewalk_from :: "nat \<Rightarrow> kstate \<Rightarrow> u64 \<Rightarrow> nat \<Rightarrow> (panic + kstate) option" where
  "freewalk_from d s pagetable i =
     (if i < 512 then
        (let pte = read64 (mem s) (pagetable + 8 * of_nat i) in
         if pte AND PTE_V \<noteq> 0 \<and> pte AND (PTE_R OR PTE_W OR PTE_X) = 0 then
           (case d of
              0 \<Rightarrow> None
            | Suc d' \<Rightarrow>
                (case freewalk_from d' s (PTE2PA pte) 0 of
                   None \<Rightarrow> None
                 | Some (Inl e) \<Rightarrow> Some (Inl e)
                 | Some (Inr s1) \<Rightarrow>
                     freewalk_from d
                       (s1\<lparr>mem := write64 (mem s1) (pagetable + 8 * of_nat i) 0\<rparr>)
                       pagetable (i + 1)))
         else if pte AND PTE_V \<noteq> 0 then Some (Inl (Panic ''freewalk: leaf''))
         else freewalk_from d s pagetable (i + 1))
      else Some (Inr (kfree s pagetable)))"
  by pat_completeness auto
termination
  by (relation "measures [\<lambda>(d, s, pagetable, i). d, \<lambda>(d, s, pagetable, i). 512 - i]") auto

declare freewalk_from.simps [simp del]

definition freewalk :: "nat \<Rightarrow> kstate \<Rightarrow> u64 \<Rightarrow> (panic + kstate) option" where
  "freewalk d s pagetable = freewalk_from d s pagetable 0"

definition uvmfree :: "nat \<Rightarrow> kstate \<Rightarrow> u64 \<Rightarrow> u64 \<Rightarrow> (panic + kstate) option" where
  "uvmfree d s pagetable sz =
     (case (if sz > 0 then uvmunmap s pagetable 0 (PGROUNDUP sz div PGSIZE) 1 else Inr s) of
        Inl e \<Rightarrow> Some (Inl e)
      | Inr s1 \<Rightarrow> freewalk d s1 pagetable)"

lemma unat_page_offset: "unat (a - PGROUNDDOWN a) = unat a mod 4096"
  by (simp add: unat_sub PGROUNDDOWN_le unat_PGROUNDDOWN minus_div_mult_eq_mod)

lemma page_offset_lt: "a - PGROUNDDOWN a < PGSIZE"
  by (simp add: word_less_nat_alt unat_page_offset PGSIZE_def)

lemma unat_chunk: "unat (PGSIZE - (a - PGROUNDDOWN a)) = 4096 - unat a mod 4096"
proof -
  have "a - PGROUNDDOWN a \<le> PGSIZE"
    using page_offset_lt [of a] by simp
  then show ?thesis
    by (simp add: unat_sub unat_page_offset PGSIZE_def)
qed

lemma chunk_decreases:
  "0 < len \<Longrightarrow> \<not> len < PGSIZE - (a - PGROUNDDOWN a) \<Longrightarrow>
   unat (len - (PGSIZE - (a - PGROUNDDOWN a))) < unat len"
proof -
  assume a: "0 < len" "\<not> len < PGSIZE - (a - PGROUNDDOWN a)"
  have "PGSIZE - (a - PGROUNDDOWN a) \<le> len" using a by simp
  then have "unat (len - (PGSIZE - (a - PGROUNDDOWN a))) = unat len - (4096 - unat a mod 4096)"
    by (simp add: unat_sub unat_chunk)
  moreover have "0 < unat len" using a by (simp add: word_less_nat_alt)
  moreover have "unat a mod 4096 < 4096" by simp
  ultimately show ?thesis by linarith
qed

function copyout :: "kstate \<Rightarrow> u64 \<Rightarrow> u64 \<Rightarrow> u64 \<Rightarrow> u64 \<Rightarrow> panic + kstate \<times> int" where
  "copyout s pagetable dstva src len =
     (if len > 0 then
        (let va0 = PGROUNDDOWN dstva in
         case walkaddr s pagetable va0 of
           Inl e \<Rightarrow> Inl e
         | Inr (s1, pa0) \<Rightarrow>
             if pa0 = 0 then Inr (s1, - 1)
             else
               let n = PGSIZE - (dstva - va0);
                   n = (if n > len then len else n);
                   s2 = s1\<lparr>mem := memmove (mem s1) (pa0 + (dstva - va0)) src n\<rparr>
               in copyout s2 pagetable (va0 + PGSIZE) (src + n) (len - n))
      else Inr (s, 0))"
  by pat_completeness auto
termination
  apply (relation "measure (\<lambda>(s, pagetable, dstva, src, len). unat len)")
   apply simp
  apply (simp add: chunk_decreases)
  apply (simp add: word_less_nat_alt)
  done

declare copyout.simps [simp del]

function copyin :: "kstate \<Rightarrow> u64 \<Rightarrow> u64 \<Rightarrow> u64 \<Rightarrow> u64 \<Rightarrow> panic + kstate \<times> int" where
  "copyin s pagetable dst srcva len =
     (if len > 0 then
        (let va0 = PGROUNDDOWN srcva in
         case walkaddr s pagetable va0 of
           Inl e \<Rightarrow> Inl e
         | Inr (s1, pa0) \<Rightarrow>
             if pa0 = 0 then Inr (s1, - 1)
             else
               let n = PGSIZE - (srcva - va0);
                   n = (if n > len then len else n);
                   s2 = s1\<lparr>mem := memmove (mem s1) dst (pa0 + (srcva - va0)) n\<rparr>
               in copyin s2 pagetable (dst + n) (va0 + PGSIZE) (len - n))
      else Inr (s, 0))"
  by pat_completeness auto
termination
  apply (relation "measure (\<lambda>(s, pagetable, dst, srcva, len). unat len)")
   apply simp
  apply (simp add: chunk_decreases)
  apply (simp add: word_less_nat_alt)
  done

declare copyin.simps [simp del]

text \<open>The inner \<^verbatim>\<open>while(n > 0)\<close> loop of \<^verbatim>\<open>copyinstr\<close>; it returns the state and the
  updated \<^verbatim>\<open>dst\<close>, \<^verbatim>\<open>max\<close> and \<^verbatim>\<open>got_null\<close>.\<close>

function copyinstr_bytes ::
  "kstate \<Rightarrow> u64 \<Rightarrow> u64 \<Rightarrow> u64 \<Rightarrow> u64 \<Rightarrow> kstate \<times> u64 \<times> u64 \<times> bool" where
  "copyinstr_bytes s dst p n max' =
     (if n > 0 then
        (if mem s p = 0 then (s\<lparr>mem := (mem s)(dst := 0)\<rparr>, dst, max', True)
         else copyinstr_bytes (s\<lparr>mem := (mem s)(dst := mem s p)\<rparr>)
                (dst + 1) (p + 1) (n - 1) (max' - 1))
      else (s, dst, max', False))"
  by pat_completeness auto
termination
  by (relation "measure (\<lambda>(s, dst, p, n, max'). unat n)") (auto simp: measure_unat)

declare copyinstr_bytes.simps [simp del]

lemma copyinstr_bytes_max:
  "copyinstr_bytes s dst p n max' = (s1, dst1, max1, False) \<Longrightarrow> max1 = max' - n"
  by (induction s dst p n max' rule: copyinstr_bytes.induct)
     (subst (asm) (2) copyinstr_bytes.simps, auto simp: word_gt_0 split: if_splits)

function copyinstr_loop ::
  "kstate \<Rightarrow> u64 \<Rightarrow> u64 \<Rightarrow> u64 \<Rightarrow> u64 \<Rightarrow> bool \<Rightarrow> panic + kstate \<times> int" where
  "copyinstr_loop s pagetable dst srcva max' got_null =
     (if \<not> got_null \<and> max' > 0 then
        (let va0 = PGROUNDDOWN srcva in
         case walkaddr s pagetable va0 of
           Inl e \<Rightarrow> Inl e
         | Inr (s1, pa0) \<Rightarrow>
             if pa0 = 0 then Inr (s1, - 1)
             else
               let n = PGSIZE - (srcva - va0);
                   n = (if n > max' then max' else n)
               in case copyinstr_bytes s1 dst (pa0 + (srcva - va0)) n max' of
                    (s2, dst1, max1, got_null1) \<Rightarrow>
                      copyinstr_loop s2 pagetable dst1 (va0 + PGSIZE) max1 got_null1)
      else if got_null then Inr (s, 0)
      else Inr (s, - 1))"
  by pat_completeness auto
termination
  apply (relation "measure (\<lambda>(s, pagetable, dst, srcva, max', got_null).
                              if got_null then 0 else Suc (unat max'))")
   apply simp
  apply (auto dest!: copyinstr_bytes_max [OF sym] simp: chunk_decreases split: if_splits)
  apply (simp_all add: word_less_nat_alt)
  done

declare copyinstr_loop.simps [simp del]

definition copyinstr :: "kstate \<Rightarrow> u64 \<Rightarrow> u64 \<Rightarrow> u64 \<Rightarrow> u64 \<Rightarrow> panic + kstate \<times> int" where
  "copyinstr s pagetable dst srcva max' = copyinstr_loop s pagetable dst srcva max' False"


section \<open>Memory: loads, stores and pages\<close>

lemma write64_bytes:
  "write64 m a v a = ucast v"
  "write64 m a v (a + 1) = ucast (drop_bit 8 v)"
  "write64 m a v (a + 2) = ucast (drop_bit 16 v)"
  "write64 m a v (a + 3) = ucast (drop_bit 24 v)"
  "write64 m a v (a + 4) = ucast (drop_bit 32 v)"
  "write64 m a v (a + 5) = ucast (drop_bit 40 v)"
  "write64 m a v (a + 6) = ucast (drop_bit 48 v)"
  "write64 m a v (a + 7) = ucast (drop_bit 56 v)"
  by (simp_all add: write64_def)

lemma byte_index_cases:
  assumes "(n::nat) < 64"
  obtains r where "r < 8" "n = r" | r where "r < 8" "n = 8 + r" | r where "r < 8" "n = 16 + r"
    | r where "r < 8" "n = 24 + r" | r where "r < 8" "n = 32 + r" | r where "r < 8" "n = 40 + r"
    | r where "r < 8" "n = 48 + r" | r where "r < 8" "n = 56 + r"
proof -
  have n: "n = 8 * (n div 8) + n mod 8" by simp
  have r: "n mod 8 < 8" by simp
  have "n div 8 < 8" using assms by simp
  then consider "n div 8 = 0" | "n div 8 = 1" | "n div 8 = 2" | "n div 8 = 3"
    | "n div 8 = 4" | "n div 8 = 5" | "n div 8 = 6" | "n div 8 = 7"
    by linarith
  then show ?thesis
  proof cases
    case 1
    then show ?thesis using that(1) [of "n mod 8"] n r by simp
  next
    case 2
    then show ?thesis using that(2) [of "n mod 8"] n r by simp
  next
    case 3
    then show ?thesis using that(3) [of "n mod 8"] n r by simp
  next
    case 4
    then show ?thesis using that(4) [of "n mod 8"] n r by simp
  next
    case 5
    then show ?thesis using that(5) [of "n mod 8"] n r by simp
  next
    case 6
    then show ?thesis using that(6) [of "n mod 8"] n r by simp
  next
    case 7
    then show ?thesis using that(7) [of "n mod 8"] n r by simp
  next
    case 8
    then show ?thesis using that(8) [of "n mod 8"] n r by simp
  qed
qed

lemma read64_write64_same: "read64 (write64 m a v) a = v"
proof (rule bit_word_eqI)
  fix n assume n: "n < LENGTH(64)"
  then have "n < 64" by simp
  then show "bit (read64 (write64 m a v) a) n = bit v n"
    by (cases rule: byte_index_cases)
       (simp_all add: read64_def write64_bytes bit_simps cong: conj_cong)
qed

lemma read64_zero: "(\<And>k. k < 8 \<Longrightarrow> m (a + k) = 0) \<Longrightarrow> read64 m a = 0"
proof -
  assume h: "\<And>k. k < 8 \<Longrightarrow> m (a + k) = 0"
  have "m (a + 0) = 0" "m (a + 1) = 0" "m (a + 2) = 0"
    "m (a + 3) = 0" "m (a + 4) = 0" "m (a + 5) = 0"
    "m (a + 6) = 0" "m (a + 7) = 0"
    by (rule h, simp)+
  then show ?thesis by (simp add: read64_def)
qed

lemma read64_cong:
  "(\<And>k. k < 8 \<Longrightarrow> m (a + k) = m' (a + k)) \<Longrightarrow> read64 m a = read64 m' a"
proof -
  assume h: "\<And>k. k < 8 \<Longrightarrow> m (a + k) = m' (a + k)"
  have "m (a + 0) = m' (a + 0)" "m (a + 1) = m' (a + 1)" "m (a + 2) = m' (a + 2)"
    "m (a + 3) = m' (a + 3)" "m (a + 4) = m' (a + 4)" "m (a + 5) = m' (a + 5)"
    "m (a + 6) = m' (a + 6)" "m (a + 7) = m' (a + 7)"
    by (rule h, simp)+
  then show ?thesis by (simp add: read64_def)
qed

definition pg_aligned :: "u64 \<Rightarrow> bool" where
  "pg_aligned p \<longleftrightarrow> p mod PGSIZE = 0"

lemma pg_aligned_unat: "pg_aligned p \<longleftrightarrow> unat p mod 4096 = 0"
  by (simp add: pg_aligned_def PGSIZE_def word_eq_iff_unsigned [where ?'a = nat] unat_mod)

lemma pg_aligned_dvd: "pg_aligned p \<longleftrightarrow> 4096 dvd unat p"
  by (simp add: pg_aligned_unat dvd_eq_mod_eq_0)

lemma pg_alignedE:
  assumes "pg_aligned p"
  obtains P where "unat p = 4096 * P" "P < 4503599627370496"
proof -
  obtain k where k: "unat p = 4096 * k" using assms by (auto simp: pg_aligned_dvd)
  have "4096 * k < 18446744073709551616" using unat_lt64 [of p] k by simp
  then have "k < 4503599627370496" by simp
  with k show ?thesis using that by blast
qed

lemma unat_aligned_plus:
  assumes "pg_aligned p" "unat off < 4096"
  shows "unat (p + off) = unat p + unat off"
proof -
  obtain P where P: "unat p = 4096 * P" "P < 4503599627370496"
    using assms(1) by (rule pg_alignedE)
  then have "4096 * P + unat off < 18446744073709551616" using assms(2) by linarith
  then show ?thesis using P by (simp add: unat_word_ariths)
qed

lemma unat_slot_off:
  assumes "i < 512" "k < 8"
  shows "unat (8 * i + k :: u64) = 8 * unat i + unat k"
proof -
  have "unat i < 512" "unat k < 8" using assms by (simp_all add: word_less_nat_alt)
  then show ?thesis by (simp add: unat_word_ariths)
qed

lemma unat_slot_byte:
  assumes "pg_aligned p" "i < 512" "k < 8"
  shows "unat (p + 8 * i + k) = unat p + 8 * unat i + unat k"
proof -
  have "unat i < 512" "unat k < 8" using assms by (simp_all add: word_less_nat_alt)
  then have "unat (8 * i + k) < 4096" using unat_slot_off [OF assms(2,3)] by simp
  then have "unat (p + (8 * i + k)) = unat p + unat (8 * i + k)"
    using assms(1) by (rule unat_aligned_plus [rotated])
  then show ?thesis using unat_slot_off [OF assms(2,3)] by (simp add: add.assoc)
qed

lemma unat_slot:
  assumes "pg_aligned p" "i < 512"
  shows "unat (p + 8 * i) = unat p + 8 * unat i"
  using unat_slot_byte [OF assms, of 0] by simp


lemma slot_arith:
  fixes P Q I J K :: nat
  assumes "P < 4503599627370496" "Q < 4503599627370496" "I < 512" "J < 512" "K < 8"
  shows "(if 4096 * Q + 8 * J \<le> 4096 * P + 8 * I + K
          then 4096 * P + 8 * I + K - (4096 * Q + 8 * J)
          else 4096 * P + 8 * I + K + 18446744073709551616 - (4096 * Q + 8 * J)) < 8
         \<longleftrightarrow> P = Q \<and> I = J"
proof (cases "P = Q")
  case True
  then show ?thesis using assms by (auto; linarith)
next
  case False
  then consider "P < Q" | "Q < P" by linarith
  then show ?thesis
  proof cases
    case 1
    then have "4096 * P + 4096 \<le> 4096 * Q" by linarith
    then show ?thesis using assms False by (auto; linarith)
  next
    case 2
    then have "4096 * Q + 4096 \<le> 4096 * P" by linarith
    then show ?thesis using assms False by (auto; linarith)
  qed
qed

lemma slot_byte_in_slot:
  assumes "pg_aligned p" "pg_aligned q" "i < 512" "j < 512" "k < 8"
  shows "(p + 8 * i + k) - (q + 8 * j) < 8 \<longleftrightarrow> p = q \<and> i = j"
proof -
  obtain P where P: "unat p = 4096 * P" "P < 4503599627370496"
    using assms(1) by (rule pg_alignedE)
  obtain Q where Q: "unat q = 4096 * Q" "Q < 4503599627370496"
    using assms(2) by (rule pg_alignedE)
  have b: "unat i < 512" "unat j < 512" "unat k < 8"
    using assms by (simp_all add: word_less_nat_alt)
  have x: "unat (p + 8 * i + k) = 4096 * P + 8 * unat i + unat k"
    using unat_slot_byte [OF assms(1,3,5)] P by simp
  have a: "unat (q + 8 * j) = 4096 * Q + 8 * unat j"
    using unat_slot [OF assms(2,4)] Q by simp
  have "(p + 8 * i + k) - (q + 8 * j) < 8 \<longleftrightarrow> P = Q \<and> unat i = unat j"
    unfolding word_less_nat_alt unat_sub_if' x a
    using slot_arith [OF P(2) Q(2) b] by (simp split: if_splits)
  moreover have "P = Q \<longleftrightarrow> p = q" using P Q by (simp add: word_unat_eq_iff)
  ultimately show ?thesis by (simp add: word_unat_eq_iff)
qed


lemma div_4096_eq: "(X::nat) div 4096 = P \<longleftrightarrow> 4096 * P \<le> X \<and> X < 4096 * P + 4096"
proof
  assume "X div 4096 = P"
  then have "X = 4096 * P + X mod 4096" by (metis mult_div_mod_eq)
  moreover have "X mod 4096 < 4096" by simp
  ultimately show "4096 * P \<le> X \<and> X < 4096 * P + 4096" by linarith
next
  assume "4096 * P \<le> X \<and> X < 4096 * P + 4096"
  then show "X div 4096 = P" by (intro div_nat_eqI) simp_all
qed

lemma in_page_iff:
  assumes "pg_aligned p"
  shows "x - p < PGSIZE \<longleftrightarrow> PGROUNDDOWN x = p"
proof -
  obtain P where P: "unat p = 4096 * P" "P < 4503599627370496"
    using assms(1) by (rule pg_alignedE)
  have X: "unat x < 18446744073709551616" by (rule unat_lt64)
  have "x - p < PGSIZE \<longleftrightarrow> 4096 * P \<le> unat x \<and> unat x < 4096 * P + 4096"
    unfolding word_less_nat_alt unat_sub_if' P PGSIZE_def using P(2) X
    by (simp split: if_splits) linarith
  also have "\<dots> \<longleftrightarrow> unat x div 4096 = P" by (simp add: div_4096_eq)
  also have "\<dots> \<longleftrightarrow> PGROUNDDOWN x = p"
    by (simp add: word_unat_eq_iff unat_PGROUNDDOWN P)
  finally show ?thesis .
qed

lemma PGROUNDDOWN_aligned_plus:
  assumes "pg_aligned p" "off < PGSIZE"
  shows "PGROUNDDOWN (p + off) = p"
  using in_page_iff [OF assms(1), of "p + off"] assms(2) by simp

lemma pg_aligned_PGROUNDDOWN [simp]: "pg_aligned (PGROUNDDOWN a)"
  by (simp add: pg_aligned_unat unat_PGROUNDDOWN)

lemma pg_aligned_PTE2PA [simp]: "pg_aligned (PTE2PA e)"
proof -
  have "PTE2PA e = PGROUNDDOWN (PTE2PA e)"
    unfolding PTE2PA_def PGROUNDDOWN_shift
    by (rule bit_word_eqI) (auto simp: bit_simps)
  then show ?thesis by (metis pg_aligned_PGROUNDDOWN)
qed

lemma PGROUNDDOWN_idem: "pg_aligned p \<Longrightarrow> PGROUNDDOWN p = p"
  using PGROUNDDOWN_aligned_plus [of p 0] by (simp add: PGSIZE_def)

lemma slot_off_lt: "i < 512 \<Longrightarrow> k < 8 \<Longrightarrow> (8 * i + k :: u64) < PGSIZE"
  by (simp add: word_less_nat_alt unat_slot_off PGSIZE_def)

lemma PGROUNDDOWN_slot_byte:
  assumes "pg_aligned p" "i < 512" "k < 8"
  shows "PGROUNDDOWN (p + 8 * i + k) = p"
  using PGROUNDDOWN_aligned_plus [OF assms(1) slot_off_lt [OF assms(2,3)]]
  by (simp add: add.assoc)

lemma slot_byte_in_page:
  assumes "pg_aligned p" "pg_aligned q" "i < 512" "k < 8"
  shows "(p + 8 * i + k) - q < PGSIZE \<longleftrightarrow> p = q"
  using in_page_iff [OF assms(2), of "p + 8 * i + k"] PGROUNDDOWN_slot_byte [OF assms(1,3,4)]
  by simp

lemma read64_write64_slot:
  assumes "pg_aligned p" "pg_aligned q" "i < 512" "j < 512"
  shows "read64 (write64 m (q + 8 * j) v) (p + 8 * i)
         = (if p = q \<and> i = j then v else read64 m (p + 8 * i))"
proof (cases "p = q \<and> i = j")
  case True
  then show ?thesis by (simp add: read64_write64_same)
next
  case False
  have "read64 (write64 m (q + 8 * j) v) (p + 8 * i) = read64 m (p + 8 * i)"
    by (rule read64_cong)
       (use False slot_byte_in_slot [OF assms] in \<open>auto simp: write64_def\<close>)
  with False show ?thesis by auto
qed

lemma read64_memset_slot:
  assumes "pg_aligned p" "pg_aligned q" "i < 512"
  shows "read64 (memset m q 0 PGSIZE) (p + 8 * i) = (if p = q then 0 else read64 m (p + 8 * i))"
proof (cases "p = q")
  case True
  have "read64 (memset m q 0 PGSIZE) (p + 8 * i) = 0"
    by (rule read64_zero)
       (use True slot_byte_in_page [OF assms(1,2,3)] in \<open>auto simp: memset_def\<close>)
  with True show ?thesis by simp
next
  case False
  have "read64 (memset m q 0 PGSIZE) (p + 8 * i) = read64 m (p + 8 * i)"
    by (rule read64_cong)
       (use False slot_byte_in_page [OF assms(1,2,3)] in \<open>auto simp: memset_def\<close>)
  with False show ?thesis by simp
qed

section \<open>Page-table entries\<close>

lemma drop_bit_10_flags: "flags < 1024 \<Longrightarrow> drop_bit 10 (flags :: u64) = 0"
  by (simp add: drop_bit_eq_div word_eq_iff_unsigned [where ?'a = nat] unat_div word_less_nat_alt)

lemma PTE2PA_PA2PTE_shift: "PTE2PA (PA2PTE p OR flags) = PGROUNDDOWN p OR push_bit 12 (drop_bit 10 flags)"
  unfolding PTE2PA_def PA2PTE_def PGROUNDDOWN_shift
  by (rule bit_word_eqI) (auto simp: bit_simps)

lemma PTE2PA_PA2PTE: "pg_aligned p \<Longrightarrow> flags < 1024 \<Longrightarrow> PTE2PA (PA2PTE p OR flags) = p"
  by (simp add: PTE2PA_PA2PTE_shift drop_bit_10_flags PGROUNDDOWN_idem)

lemma flags_bit: "flags < 1024 \<Longrightarrow> bit (flags :: u64) n \<Longrightarrow> n < 10"
proof (rule ccontr)
  assume f: "flags < 1024" and b: "bit flags n" and n: "\<not> n < 10"
  have "bit (drop_bit 10 flags) (n - 10)" using b n by (simp add: bit_simps)
  then show False using drop_bit_10_flags [OF f] by simp
qed

lemma n1023: "(1023 :: u64) = mask 10"
  by (simp add: mask_eq_exp_minus_1)

lemma PA2PTE_and_flags: "f < 1024 \<Longrightarrow> (PA2PTE p OR flags) AND f = flags AND f"
  unfolding PA2PTE_def
  by (rule bit_word_eqI) (auto simp: bit_simps dest: flags_bit)

lemma PTE_FLAGS_PA2PTE: "flags < 1024 \<Longrightarrow> PTE_FLAGS (PA2PTE p OR flags) = flags"
  unfolding PA2PTE_def PTE_FLAGS_def n1023
  by (rule bit_word_eqI) (auto simp: bit_simps dest: flags_bit)

lemma PA2PTE_V: "(PA2PTE p OR PTE_V) AND PTE_V = PTE_V"
  by (simp add: PA2PTE_and_flags PTE_V_def)

section \<open>The page-table tree\<close>

lemma n511: "(511 :: u64) = mask 9"
  by (simp add: mask_eq_exp_minus_1)

lemma PX_lt: "PX l va < 512"
proof -
  have "PX l va \<le> 511" unfolding PX_def by (rule word_and_le1)
  then show ?thesis by (simp add: word_le_nat_alt word_less_nat_alt)
qed

definition children :: "memory \<Rightarrow> u64 \<Rightarrow> u64 set" where
  "children m p = {PTE2PA (read64 m (p + 8 * i)) | i. i < 512 \<and> read64 m (p + 8 * i) AND PTE_V \<noteq> 0}"

definition l1_tables :: "memory \<Rightarrow> u64 \<Rightarrow> u64 set" where
  "l1_tables m r = children m r"

definition l0_tables :: "memory \<Rightarrow> u64 \<Rightarrow> u64 set" where
  "l0_tables m r = (\<Union>c \<in> l1_tables m r. children m c)"

definition pt_pages :: "memory \<Rightarrow> u64 \<Rightarrow> u64 set" where
  "pt_pages m r = insert r (l1_tables m r \<union> l0_tables m r)"

definition child_inj :: "memory \<Rightarrow> u64 \<Rightarrow> bool" where
  "child_inj m p \<longleftrightarrow>
     (\<forall>i j. i < 512 \<and> j < 512 \<and> read64 m (p + 8 * i) AND PTE_V \<noteq> 0 \<and>
            read64 m (p + 8 * j) AND PTE_V \<noteq> 0 \<and>
            PTE2PA (read64 m (p + 8 * i)) = PTE2PA (read64 m (p + 8 * j)) \<longrightarrow> i = j)"

definition pt_wf :: "memory \<Rightarrow> u64 \<Rightarrow> bool" where
  "pt_wf m r \<longleftrightarrow>
     pg_aligned r \<and> r \<noteq> 0 \<and> 0 \<notin> l1_tables m r \<and> 0 \<notin> l0_tables m r \<and>
     r \<notin> l1_tables m r \<and> r \<notin> l0_tables m r \<and> l1_tables m r \<inter> l0_tables m r = {} \<and>
     child_inj m r \<and> (\<forall>c \<in> l1_tables m r. child_inj m c) \<and>
     (\<forall>c \<in> l1_tables m r. \<forall>c' \<in> l1_tables m r. c \<noteq> c' \<longrightarrow> children m c \<inter> children m c' = {})"

definition pte_slot :: "memory \<Rightarrow> u64 \<Rightarrow> u64 \<Rightarrow> u64 option" where
  "pte_slot m r va =
     (let e2 = read64 m (r + 8 * PX 2 va) in
      if e2 AND PTE_V = 0 then None
      else let e1 = read64 m (PTE2PA e2 + 8 * PX 1 va) in
        if e1 AND PTE_V = 0 then None
        else Some (PTE2PA e1 + 8 * PX 0 va))"

definition leaf :: "memory \<Rightarrow> u64 \<Rightarrow> u64 \<Rightarrow> u64 option" where
  "leaf m r va =
     (case pte_slot m r va of
        None \<Rightarrow> None
      | Some p \<Rightarrow> if read64 m p AND PTE_V = 0 then None else Some (read64 m p))"


text \<open>One upper level of the descent, in the words of the specification: a valid entry
  leads to its child table; an invalid one fails when allocation is disabled or the
  allocator is exhausted, and otherwise a fresh zeroed page is installed as internal node.\<close>

definition install :: "memory \<Rightarrow> u64 \<Rightarrow> u64 \<Rightarrow> memory" where
  "install m pte pg = write64 (memset m pg 0 PGSIZE) pte (PA2PTE pg OR PTE_V)"

definition walk_step :: "kstate \<Rightarrow> u64 \<Rightarrow> u64 \<Rightarrow> int \<Rightarrow> kstate \<times> u64 option" where
  "walk_step s table idx alloc =
     (if read64 (mem s) (table + 8 * idx) AND PTE_V \<noteq> 0
      then (s, Some (PTE2PA (read64 (mem s) (table + 8 * idx))))
      else if alloc = 0 then (s, None)
      else case freelist s of
             [] \<Rightarrow> (s, None)
           | pg # rest \<Rightarrow>
               if pg = 0 then (s\<lparr>freelist := rest\<rparr>, None)
               else (\<lparr>mem = install (mem s) (table + 8 * idx) pg, freelist = rest\<rparr>, Some pg))"

definition walk_spec :: "kstate \<Rightarrow> u64 \<Rightarrow> u64 \<Rightarrow> int \<Rightarrow> panic + kstate \<times> u64" where
  "walk_spec s root va alloc =
     (if MAXVA \<le> va then Inl (Panic ''walk'')
      else case walk_step s root (PX 2 va) alloc of
             (s1, None) \<Rightarrow> Inr (s1, 0)
           | (s1, Some t1) \<Rightarrow>
               (case walk_step s1 t1 (PX 1 va) alloc of
                  (s2, None) \<Rightarrow> Inr (s2, 0)
                | (s2, Some t0) \<Rightarrow> Inr (s2, t0 + 8 * PX 0 va)))"

lemma walk_levels_Suc:
  "walk_levels (Suc l) s table va alloc =
     (case walk_step s table (PX (Suc l) va) alloc of
        (s1, None) \<Rightarrow> (s1, 0)
      | (s1, Some t) \<Rightarrow> walk_levels l s1 t va alloc)"
  by (cases s) (simp add: walk_step_def kalloc_def install_def Let_def split: list.splits)

lemma walk_eq_walk_spec: "walk s root va alloc = walk_spec s root va alloc"
proof -
  have "walk_levels 2 s root va alloc =
     (case walk_step s root (PX 2 va) alloc of
        (s1, None) \<Rightarrow> (s1, 0)
      | (s1, Some t1) \<Rightarrow>
          (case walk_step s1 t1 (PX 1 va) alloc of
             (s2, None) \<Rightarrow> (s2, 0)
           | (s2, Some t0) \<Rightarrow> (s2, t0 + 8 * PX 0 va)))"
    unfolding numeral_2_eq_2 walk_levels_Suc
    unfolding One_nat_def [symmetric] walk_levels_Suc
    unfolding One_nat_def walk_levels_Suc
    by (simp split: prod.splits option.splits)
  then show ?thesis
    by (simp add: walk_def walk_spec_def split: prod.splits option.splits)
qed

lemma walk_noalloc:
  "va < MAXVA \<Longrightarrow>
   walk s r va 0 = Inr (s, case pte_slot (mem s) r va of None \<Rightarrow> 0 | Some p \<Rightarrow> p)"
  by (simp add: walk_eq_walk_spec walk_spec_def walk_step_def pte_slot_def Let_def not_le)


lemma read64_install:
  assumes "pg_aligned t" "i < 512" "pg_aligned pg" "pg \<noteq> t" "pg_aligned q" "j < 512"
  shows "read64 (install m (t + 8 * i) pg) (q + 8 * j) =
         (if q = t \<and> j = i then PA2PTE pg OR PTE_V else if q = pg then 0 else read64 m (q + 8 * j))"
  using assms by (simp add: install_def read64_write64_slot read64_memset_slot)


lemma children_iff:
  "x \<in> children m p \<longleftrightarrow>
     (\<exists>i. i < 512 \<and> read64 m (p + 8 * i) AND PTE_V \<noteq> 0 \<and> x = PTE2PA (read64 m (p + 8 * i)))"
  by (auto simp: children_def)

lemma childrenI:
  "i < 512 \<Longrightarrow> read64 m (p + 8 * i) AND PTE_V \<noteq> 0 \<Longrightarrow> PTE2PA (read64 m (p + 8 * i)) \<in> children m p"
  by (auto simp: children_def)

lemma children_cong:
  assumes "\<And>j. j < 512 \<Longrightarrow> read64 m' (q + 8 * j) = read64 m (q + 8 * j)"
  shows "children m' q = children m q"
  by (rule set_eqI) (simp add: children_iff assms cong: conj_cong)

lemma children_zero:
  assumes "\<And>j. j < 512 \<Longrightarrow> read64 m' (q + 8 * j) = 0"
  shows "children m' q = {}"
  by (rule set_eqI) (simp add: children_iff assms cong: conj_cong)

lemma children_upd:
  assumes "i < 512"
    and "\<And>j. j < 512 \<Longrightarrow> j \<noteq> i \<Longrightarrow> read64 m' (q + 8 * j) = read64 m (q + 8 * j)"
    and "read64 m (q + 8 * i) AND PTE_V = 0"
    and "read64 m' (q + 8 * i) = e" "e AND PTE_V \<noteq> 0"
  shows "children m' q = insert (PTE2PA e) (children m q)"
proof (rule set_eqI)
  fix x
  show "x \<in> children m' q \<longleftrightarrow> x \<in> insert (PTE2PA e) (children m q)"
  proof
    assume "x \<in> children m' q"
    then obtain j where j: "j < 512" "read64 m' (q + 8 * j) AND PTE_V \<noteq> 0"
      "x = PTE2PA (read64 m' (q + 8 * j))" by (auto simp: children_iff)
    show "x \<in> insert (PTE2PA e) (children m q)"
    proof (cases "j = i")
      case True
      then show ?thesis using j assms(4) by simp
    next
      case False
      then show ?thesis using j assms(2) [OF j(1) False] by (auto simp: children_iff)
    qed
  next
    assume "x \<in> insert (PTE2PA e) (children m q)"
    then consider "x = PTE2PA e" | "x \<in> children m q" by auto
    then show "x \<in> children m' q"
    proof cases
      case 1
      then show ?thesis using assms(1,4,5) childrenI [of i m' q] by simp
    next
      case 2
      then obtain j where j: "j < 512" "read64 m (q + 8 * j) AND PTE_V \<noteq> 0"
        "x = PTE2PA (read64 m (q + 8 * j))" by (auto simp: children_iff)
      then have "j \<noteq> i" using assms(3) by auto
      then show ?thesis using j assms(2) [OF j(1)] childrenI [of j m' q] by simp
    qed
  qed
qed

lemma children_install:
  assumes "pg_aligned t" "i < 512" "pg_aligned pg" "pg \<noteq> t" "pg_aligned q"
    "read64 m (t + 8 * i) AND PTE_V = 0"
  shows "children (install m (t + 8 * i) pg) q =
         (if q = t then insert pg (children m t) else if q = pg then {} else children m q)"
proof -
  note r = read64_install [OF assms(1,2,3,4)]
  consider "q = t" | "q \<noteq> t" "q = pg" | "q \<noteq> t" "q \<noteq> pg" by blast
  then show ?thesis
  proof cases
    case 1
    have "children (install m (t + 8 * i) pg) t = insert (PTE2PA (PA2PTE pg OR PTE_V)) (children m t)"
      by (rule children_upd [OF assms(2)])
         (use assms in \<open>simp_all add: r PA2PTE_V PTE_V_def\<close>)
    then show ?thesis using 1 assms(3) by (simp add: PTE2PA_PA2PTE PTE_V_def)
  next
    case 2
    have "children (install m (t + 8 * i) pg) pg = {}"
      by (rule children_zero) (use assms in \<open>simp add: r\<close>)
    then show ?thesis using 2 by simp
  next
    case 3
    have "children (install m (t + 8 * i) pg) q = children m q"
      by (rule children_cong) (use assms 3 in \<open>simp add: r\<close>)
    then show ?thesis using 3 by simp
  qed
qed

lemma children_aligned: "c \<in> children m p \<Longrightarrow> pg_aligned c"
  by (auto simp: children_iff)

lemma child_injD:
  "child_inj m p \<Longrightarrow> i < 512 \<Longrightarrow> j < 512 \<Longrightarrow> read64 m (p + 8 * i) AND PTE_V \<noteq> 0 \<Longrightarrow>
   read64 m (p + 8 * j) AND PTE_V \<noteq> 0 \<Longrightarrow>
   PTE2PA (read64 m (p + 8 * i)) = PTE2PA (read64 m (p + 8 * j)) \<Longrightarrow> i = j"
  unfolding child_inj_def by blast

lemma child_inj_install:
  assumes "pg_aligned t" "i < 512" "pg_aligned pg" "pg \<noteq> t" "pg_aligned q"
    "read64 m (t + 8 * i) AND PTE_V = 0" "q \<noteq> pg \<Longrightarrow> child_inj m q" "pg \<notin> children m t"
  shows "child_inj (install m (t + 8 * i) pg) q"
proof -
  note r = read64_install [OF assms(1,2,3,4,5)]
  have pgpa: "PTE2PA (PA2PTE pg OR PTE_V) = pg"
    using assms(3) by (simp add: PTE2PA_PA2PTE PTE_V_def)
  show ?thesis
    unfolding child_inj_def
  proof (intro allI impI, elim conjE)
    fix a b
    assume a: "a < 512" and b: "b < 512"
      and va: "read64 (install m (t + 8 * i) pg) (q + 8 * a) AND PTE_V \<noteq> 0"
      and vb: "read64 (install m (t + 8 * i) pg) (q + 8 * b) AND PTE_V \<noteq> 0"
      and eq: "PTE2PA (read64 (install m (t + 8 * i) pg) (q + 8 * a)) =
               PTE2PA (read64 (install m (t + 8 * i) pg) (q + 8 * b))"
    note ra = r [OF a] and rb = r [OF b]
    show "a = b"
    proof (cases "q = t")
      case False
      have qpg: "q \<noteq> pg" using va False unfolding ra by auto
      then have "read64 (install m (t + 8 * i) pg) (q + 8 * a) = read64 m (q + 8 * a)"
        "read64 (install m (t + 8 * i) pg) (q + 8 * b) = read64 m (q + 8 * b)"
        using False unfolding ra rb by simp_all
      then show ?thesis using va vb eq child_injD [OF assms(7) [OF qpg] a b] by simp
    next
      case True
      then have qpg: "q \<noteq> pg" using assms(4) by simp
      show ?thesis
      proof (cases "a = i"; cases "b = i")
        assume "a = i" "b = i" then show ?thesis by simp
      next
        assume h: "a = i" "b \<noteq> i"
        have "read64 (install m (t + 8 * i) pg) (q + 8 * a) = PA2PTE pg OR PTE_V"
          "read64 (install m (t + 8 * i) pg) (q + 8 * b) = read64 m (t + 8 * b)"
          using h True assms(4) unfolding ra rb by simp_all
        then have "PTE2PA (read64 m (t + 8 * b)) = pg" "read64 m (t + 8 * b) AND PTE_V \<noteq> 0"
          using eq vb pgpa by simp_all
        then show ?thesis using assms(8) childrenI [OF b, of m t] by simp
      next
        assume h: "a \<noteq> i" "b = i"
        have "read64 (install m (t + 8 * i) pg) (q + 8 * b) = PA2PTE pg OR PTE_V"
          "read64 (install m (t + 8 * i) pg) (q + 8 * a) = read64 m (t + 8 * a)"
          using h True assms(4) unfolding ra rb by simp_all
        then have "PTE2PA (read64 m (t + 8 * a)) = pg" "read64 m (t + 8 * a) AND PTE_V \<noteq> 0"
          using eq va pgpa by simp_all
        then show ?thesis using assms(8) childrenI [OF a, of m t] by simp
      next
        assume h: "a \<noteq> i" "b \<noteq> i"
        have "read64 (install m (t + 8 * i) pg) (q + 8 * a) = read64 m (q + 8 * a)"
          "read64 (install m (t + 8 * i) pg) (q + 8 * b) = read64 m (q + 8 * b)"
          using h True assms(4) unfolding ra rb by simp_all
        then show ?thesis using va vb eq child_injD [OF assms(7) [OF qpg] a b] by simp
      qed
    qed
  qed
qed

lemma pt_wfD:
  assumes "pt_wf m r"
  shows "pg_aligned r" "r \<noteq> 0" "0 \<notin> l1_tables m r" "0 \<notin> l0_tables m r"
    "r \<notin> l1_tables m r" "r \<notin> l0_tables m r" "l1_tables m r \<inter> l0_tables m r = {}"
    "child_inj m r" "\<And>c. c \<in> l1_tables m r \<Longrightarrow> child_inj m c"
    "\<And>c c'. c \<in> l1_tables m r \<Longrightarrow> c' \<in> l1_tables m r \<Longrightarrow> c \<noteq> c' \<Longrightarrow>
       children m c \<inter> children m c' = {}"
  using assms unfolding pt_wf_def by blast+

lemma l1_aligned: "c \<in> l1_tables m r \<Longrightarrow> pg_aligned c"
  by (simp add: l1_tables_def children_aligned)

lemma l0_aligned: "c \<in> l0_tables m r \<Longrightarrow> pg_aligned c"
  by (auto simp: l0_tables_def children_aligned)

lemma l0_I: "c \<in> l1_tables m r \<Longrightarrow> x \<in> children m c \<Longrightarrow> x \<in> l0_tables m r"
  by (auto simp: l0_tables_def)

text \<open>A fresh page installed in the root table.\<close>

lemma install_root_tables:
  assumes wf: "pt_wf m r" and i: "i < 512" and inv: "read64 m (r + 8 * i) AND PTE_V = 0"
    and pg: "pg_aligned pg" "pg \<notin> pt_pages m r"
  shows "l1_tables (install m (r + 8 * i) pg) r = insert pg (l1_tables m r)"
    and "l0_tables (install m (r + 8 * i) pg) r = l0_tables m r"
    and "children (install m (r + 8 * i) pg) pg = {}"
    and "\<And>c. c \<in> l1_tables m r \<Longrightarrow> children (install m (r + 8 * i) pg) c = children m c"
proof -
  note w = pt_wfD [OF wf]
  have pgr: "pg \<noteq> r" and pg1: "pg \<notin> l1_tables m r" and pg0: "pg \<notin> l0_tables m r"
    using pg(2) by (auto simp: pt_pages_def)
  note ci = children_install [OF w(1) i pg(1) pgr _ inv]
  show l1: "l1_tables (install m (r + 8 * i) pg) r = insert pg (l1_tables m r)"
    unfolding l1_tables_def using ci [OF w(1)] by simp
  show z: "children (install m (r + 8 * i) pg) pg = {}"
    using ci [OF pg(1)] pgr by simp
  show same: "\<And>c. c \<in> l1_tables m r \<Longrightarrow> children (install m (r + 8 * i) pg) c = children m c"
  proof -
    fix c assume c: "c \<in> l1_tables m r"
    then have "c \<noteq> r" "c \<noteq> pg" using w(5) pg1 by auto
    then show "children (install m (r + 8 * i) pg) c = children m c"
      using ci [OF l1_aligned [OF c]] by simp
  qed
  show "l0_tables (install m (r + 8 * i) pg) r = l0_tables m r"
    unfolding l0_tables_def l1 using z same by (simp add: l0_tables_def)
qed

lemma install_l1_tables:
  assumes wf: "pt_wf m r" and t: "t \<in> l1_tables m r" and i: "i < 512"
    and inv: "read64 m (t + 8 * i) AND PTE_V = 0"
    and pg: "pg_aligned pg" "pg \<notin> pt_pages m r"
  shows "l1_tables (install m (t + 8 * i) pg) r = l1_tables m r"
    and "l0_tables (install m (t + 8 * i) pg) r = insert pg (l0_tables m r)"
    and "children (install m (t + 8 * i) pg) t = insert pg (children m t)"
    and "\<And>c. c \<in> l1_tables m r \<Longrightarrow> c \<noteq> t \<Longrightarrow> children (install m (t + 8 * i) pg) c = children m c"
proof -
  note w = pt_wfD [OF wf]
  have pgr: "pg \<noteq> r" and pg1: "pg \<notin> l1_tables m r" and pg0: "pg \<notin> l0_tables m r"
    using pg(2) by (auto simp: pt_pages_def)
  have tr: "t \<noteq> r" and pgt: "pg \<noteq> t" using t w(5) pg1 by auto
  note ci = children_install [OF l1_aligned [OF t] i pg(1) pgt _ inv]
  show l1: "l1_tables (install m (t + 8 * i) pg) r = l1_tables m r"
    unfolding l1_tables_def using ci [OF w(1)] tr pgr by simp
  show ct: "children (install m (t + 8 * i) pg) t = insert pg (children m t)"
    using ci [OF l1_aligned [OF t]] by simp
  show same: "\<And>c. c \<in> l1_tables m r \<Longrightarrow> c \<noteq> t \<Longrightarrow>
      children (install m (t + 8 * i) pg) c = children m c"
  proof -
    fix c assume c: "c \<in> l1_tables m r" "c \<noteq> t"
    then have "c \<noteq> pg" using pg1 by auto
    then show "children (install m (t + 8 * i) pg) c = children m c"
      using ci [OF l1_aligned [OF c(1)]] c(2) by simp
  qed
  have "(\<Union>c\<in>l1_tables m r. children (install m (t + 8 * i) pg) c)
        = insert pg (\<Union>c\<in>l1_tables m r. children m c)"
  proof -
    have "l1_tables m r = insert t (l1_tables m r - {t})" using t by auto
    then have "(\<Union>c\<in>l1_tables m r. children (install m (t + 8 * i) pg) c)
        = children (install m (t + 8 * i) pg) t
          \<union> (\<Union>c\<in>l1_tables m r - {t}. children (install m (t + 8 * i) pg) c)"
      by (metis UN_insert)
    also have "\<dots> = insert pg (children m t) \<union> (\<Union>c\<in>l1_tables m r - {t}. children m c)"
      using same ct by simp
    also have "\<dots> = insert pg (\<Union>c\<in>l1_tables m r. children m c)"
      using t by auto
    finally show ?thesis .
  qed
  then show "l0_tables (install m (t + 8 * i) pg) r = insert pg (l0_tables m r)"
    unfolding l0_tables_def l1 .
qed

lemma pt_wf_install_root:
  assumes wf: "pt_wf m r" and i: "i < 512" and inv: "read64 m (r + 8 * i) AND PTE_V = 0"
    and pg: "pg_aligned pg" "pg \<notin> pt_pages m r" "pg \<noteq> 0"
  shows "pt_wf (install m (r + 8 * i) pg) r"
proof -
  note w = pt_wfD [OF wf]
  note tb = install_root_tables [OF wf i inv pg(1,2)]
  have pgr: "pg \<noteq> r" and pg1: "pg \<notin> l1_tables m r" and pg0: "pg \<notin> l0_tables m r"
    using pg(2) by (auto simp: pt_pages_def)
  have pgc: "pg \<notin> children m r" using pg1 by (simp add: l1_tables_def)
  note inj = child_inj_install [OF w(1) i pg(1) pgr _ inv _ pgc]
  have a: "child_inj (install m (r + 8 * i) pg) r" by (rule inj [OF w(1)]) (rule w(8))
  have b: "\<And>c. c \<in> insert pg (l1_tables m r) \<Longrightarrow> child_inj (install m (r + 8 * i) pg) c"
  proof -
    fix c assume "c \<in> insert pg (l1_tables m r)"
    then consider "c = pg" | "c \<in> l1_tables m r" "c \<noteq> pg" by auto
    then show "child_inj (install m (r + 8 * i) pg) c"
    proof cases
      case 1 then show ?thesis using inj [OF pg(1)] by simp
    next
      case 2 then show ?thesis using inj [OF l1_aligned [OF 2(1)]] w(9) by simp
    qed
  qed
  have c: "\<And>c c'. c \<in> insert pg (l1_tables m r) \<Longrightarrow> c' \<in> insert pg (l1_tables m r) \<Longrightarrow> c \<noteq> c' \<Longrightarrow>
     children (install m (r + 8 * i) pg) c \<inter> children (install m (r + 8 * i) pg) c' = {}"
  proof -
    fix c c' assume h: "c \<in> insert pg (l1_tables m r)" "c' \<in> insert pg (l1_tables m r)" "c \<noteq> c'"
    show "children (install m (r + 8 * i) pg) c \<inter> children (install m (r + 8 * i) pg) c' = {}"
    proof (cases "c = pg \<or> c' = pg")
      case True then show ?thesis using tb(3) by auto
    next
      case False
      then have "c \<in> l1_tables m r" "c' \<in> l1_tables m r" using h by auto
      then show ?thesis using tb(4) w(10) h(3) by simp
    qed
  qed
  show ?thesis
    unfolding pt_wf_def tb(1,2)
    using w(1-7) pg(3) pgr pg0 a b c by (intro conjI ballI impI) auto
qed

lemma pt_wf_install_l1:
  assumes wf: "pt_wf m r" and t: "t \<in> l1_tables m r" and i: "i < 512"
    and inv: "read64 m (t + 8 * i) AND PTE_V = 0"
    and pg: "pg_aligned pg" "pg \<notin> pt_pages m r" "pg \<noteq> 0"
  shows "pt_wf (install m (t + 8 * i) pg) r"
proof -
  note w = pt_wfD [OF wf]
  note tb = install_l1_tables [OF wf t i inv pg(1,2)]
  have pgr: "pg \<noteq> r" and pg1: "pg \<notin> l1_tables m r" and pg0: "pg \<notin> l0_tables m r"
    using pg(2) by (auto simp: pt_pages_def)
  have tr: "t \<noteq> r" and pgt: "pg \<noteq> t" using t w(5) pg1 by auto
  have sub: "\<And>c. c \<in> l1_tables m r \<Longrightarrow> pg \<notin> children m c" using pg0 l0_I by blast
  note inj = child_inj_install [OF l1_aligned [OF t] i pg(1) pgt _ inv _ sub [OF t]]
  have a: "child_inj (install m (t + 8 * i) pg) r" by (rule inj [OF w(1)]) (rule w(8))
  have b: "\<And>c. c \<in> l1_tables m r \<Longrightarrow> child_inj (install m (t + 8 * i) pg) c"
    using inj l1_aligned w(9) by blast
  have c: "\<And>c c'. c \<in> l1_tables m r \<Longrightarrow> c' \<in> l1_tables m r \<Longrightarrow> c \<noteq> c' \<Longrightarrow>
     children (install m (t + 8 * i) pg) c \<inter> children (install m (t + 8 * i) pg) c' = {}"
  proof -
    fix c c' assume h: "c \<in> l1_tables m r" "c' \<in> l1_tables m r" "c \<noteq> c'"
    note d = w(10) [OF h] sub [OF h(1)] sub [OF h(2)]
    consider "c = t" "c' \<noteq> t" | "c' = t" "c \<noteq> t" | "c \<noteq> t" "c' \<noteq> t" using h(3) by blast
    then show "children (install m (t + 8 * i) pg) c \<inter> children (install m (t + 8 * i) pg) c' = {}"
    proof cases
      case 1 then show ?thesis using tb(3) tb(4) [OF h(2)] d by auto
    next
      case 2 then show ?thesis using tb(3) tb(4) [OF h(1)] d by auto
    next
      case 3 then show ?thesis using tb(4) [OF h(1)] tb(4) [OF h(2)] d by auto
    qed
  qed
  show ?thesis
    unfolding pt_wf_def tb(1,2)
    using w(1-7) pg(3) pgr pg1 a b c by (intro conjI ballI impI) auto
qed

lemma pt_pages_install_root:
  assumes "pt_wf m r" "i < 512" "read64 m (r + 8 * i) AND PTE_V = 0" "pg_aligned pg" "pg \<notin> pt_pages m r"
  shows "pt_pages (install m (r + 8 * i) pg) r = insert pg (pt_pages m r)"
  unfolding pt_pages_def install_root_tables(1,2) [OF assms] by auto

lemma pt_pages_install_l1:
  assumes "pt_wf m r" "t \<in> l1_tables m r" "i < 512" "read64 m (t + 8 * i) AND PTE_V = 0"
    "pg_aligned pg" "pg \<notin> pt_pages m r"
  shows "pt_pages (install m (t + 8 * i) pg) r = insert pg (pt_pages m r)"
  unfolding pt_pages_def install_l1_tables(1,2) [OF assms] by auto

lemma install_frame:
  assumes "pg_aligned t" "i < 512" "pg_aligned pg" "PGROUNDDOWN a \<noteq> pg" "PGROUNDDOWN a \<noteq> t"
  shows "install m (t + 8 * i) pg a = m a"
proof -
  have 1: "\<not> a - pg < PGSIZE" using in_page_iff [OF assms(3), of a] assms(4) by simp
  have 2: "\<not> a - (t + 8 * i) < 8"
  proof
    assume h: "a - (t + 8 * i) < 8"
    have "a = t + 8 * i + (a - (t + 8 * i))" by simp
    then have "PGROUNDDOWN a = t"
      using PGROUNDDOWN_slot_byte [OF assms(1,2) h] by simp
    then show False using assms(5) by simp
  qed
  show ?thesis using 1 2 by (simp add: install_def write64_def memset_def)
qed

lemma pte_slot_SomeD:
  assumes "pte_slot m r va = Some p"
  shows "read64 m (r + 8 * PX 2 va) AND PTE_V \<noteq> 0"
    "read64 m (PTE2PA (read64 m (r + 8 * PX 2 va)) + 8 * PX 1 va) AND PTE_V \<noteq> 0"
    "p = PTE2PA (read64 m (PTE2PA (read64 m (r + 8 * PX 2 va)) + 8 * PX 1 va)) + 8 * PX 0 va"
  using assms by (auto simp: pte_slot_def Let_def split: if_splits)

lemma pte_slot_SomeI:
  assumes "read64 m (r + 8 * PX 2 va) AND PTE_V \<noteq> 0" "PTE2PA (read64 m (r + 8 * PX 2 va)) = t1"
    "read64 m (t1 + 8 * PX 1 va) AND PTE_V \<noteq> 0" "PTE2PA (read64 m (t1 + 8 * PX 1 va)) = t0"
  shows "pte_slot m r va = Some (t0 + 8 * PX 0 va)"
  using assms by (auto simp: pte_slot_def Let_def)

lemma l1_I: "i < 512 \<Longrightarrow> read64 m (r + 8 * i) AND PTE_V \<noteq> 0 \<Longrightarrow> PTE2PA (read64 m (r + 8 * i)) \<in> l1_tables m r"
  by (simp add: l1_tables_def childrenI)

lemma leaf_install:
  assumes wf: "pt_wf m r" and t: "t = r \<or> t \<in> l1_tables m r" and i: "i < 512"
    and inv: "read64 m (t + 8 * i) AND PTE_V = 0"
    and pg: "pg_aligned pg" "pg \<notin> pt_pages m r"
  shows "leaf (install m (t + 8 * i) pg) r va = leaf m r va"
proof -
  let ?m = "install m (t + 8 * i) pg"
  note One_nat_def [simp del]
  note w = pt_wfD [OF wf]
  have pgr: "pg \<noteq> r" and pg1: "pg \<notin> l1_tables m r" and pg0: "pg \<notin> l0_tables m r"
    using pg(2) by (auto simp: pt_pages_def)
  have ta: "pg_aligned t" using t w(1) l1_aligned by auto
  have pgt: "pg \<noteq> t" using t pgr pg1 by auto
  note r = read64_install [OF ta i pg(1) pgt]
  have newv: "(PA2PTE pg OR PTE_V) AND PTE_V \<noteq> 0" by (simp add: PA2PTE_V PTE_V_def)
  have newpa: "PTE2PA (PA2PTE pg OR PTE_V) = pg"
    using pg(1) by (simp add: PTE2PA_PA2PTE PTE_V_def)
  define e2 where "e2 = read64 m (r + 8 * PX 2 va)"
  have e2': "read64 ?m (r + 8 * PX 2 va) = (if r = t \<and> PX 2 va = i then PA2PTE pg OR PTE_V else e2)"
    using pgr by (simp add: r [OF w(1) PX_lt] e2_def)
  show ?thesis
  proof (cases "r = t \<and> PX 2 va = i")
    case True
    then have old: "leaf m r va = None" using inv by (simp add: leaf_def pte_slot_def)
    have "read64 ?m (pg + 8 * PX 1 va) = 0" using pgt by (simp add: r [OF pg(1) PX_lt])
    then have "pte_slot ?m r va = None"
      using True e2' newpa by (simp add: pte_slot_def Let_def)
    then show ?thesis using old by (simp add: leaf_def)
  next
    case False
    then have e2s: "read64 ?m (r + 8 * PX 2 va) = e2" using e2' by auto
    show ?thesis
    proof (cases "e2 AND PTE_V = 0")
      case True
      then show ?thesis using e2s by (simp add: leaf_def pte_slot_def e2_def)
    next
      case v2: False
      define t1 where "t1 = PTE2PA e2"
      have t1: "t1 \<in> l1_tables m r" unfolding t1_def e2_def using v2 l1_I [OF PX_lt] e2_def by simp
      have t1a: "pg_aligned t1" and t1pg: "t1 \<noteq> pg" using t1 l1_aligned pg1 by auto
      define e1 where "e1 = read64 m (t1 + 8 * PX 1 va)"
      have e1': "read64 ?m (t1 + 8 * PX 1 va) = (if t1 = t \<and> PX 1 va = i then PA2PTE pg OR PTE_V else e1)"
        using t1pg by (simp add: r [OF t1a PX_lt] e1_def)
      show ?thesis
      proof (cases "t1 = t \<and> PX 1 va = i")
        case True
        then have "e1 AND PTE_V = 0" using inv by (simp add: e1_def)
        then have old: "leaf m r va = None" using v2
          by (simp add: leaf_def pte_slot_def Let_def e2_def [symmetric] t1_def [symmetric] e1_def [symmetric])
        have "read64 ?m (pg + 8 * PX 0 va) = 0" using pgt by (simp add: r [OF pg(1) PX_lt])
        then have "leaf ?m r va = None"
          using True e1' e2s v2 newpa newv
          by (simp add: leaf_def pte_slot_def Let_def t1_def [symmetric])
        then show ?thesis using old by simp
      next
        case False
        then have e1s: "read64 ?m (t1 + 8 * PX 1 va) = e1" using e1' by auto
        show ?thesis
        proof (cases "e1 AND PTE_V = 0")
          case True
          then show ?thesis using e2s e1s v2
            by (simp add: leaf_def pte_slot_def Let_def e2_def [symmetric] t1_def [symmetric] e1_def [symmetric])
        next
          case v1: False
          define t0 where "t0 = PTE2PA e1"
          have "t0 \<in> children m t1" unfolding t0_def e1_def using v1 childrenI [OF PX_lt] e1_def by simp
          then have t0: "t0 \<in> l0_tables m r" using t1 l0_I by blast
          have t0a: "pg_aligned t0" and t0pg: "t0 \<noteq> pg" using t0 l0_aligned pg0 by auto
          have t0t: "t0 \<noteq> t" using t t0 w(6,7) by auto
          have "read64 ?m (t0 + 8 * PX 0 va) = read64 m (t0 + 8 * PX 0 va)"
            using t0pg t0t by (simp add: r [OF t0a PX_lt])
          then show ?thesis using e2s e1s v2 v1
            by (simp add: leaf_def pte_slot_def Let_def e2_def [symmetric] t1_def [symmetric]
                e1_def [symmetric] t0_def [symmetric])
        qed
      qed
    qed
  qed
qed

definition alloc_ok :: "kstate \<Rightarrow> u64 \<Rightarrow> bool" where
  "alloc_ok s r \<longleftrightarrow>
     distinct (freelist s) \<and>
     (\<forall>p \<in> set (freelist s). pg_aligned p \<and> p \<noteq> 0 \<and> p \<notin> pt_pages (mem s) r)"

lemma alloc_okD:
  assumes "alloc_ok s r"
  shows "distinct (freelist s)"
    "\<And>p. p \<in> set (freelist s) \<Longrightarrow> pg_aligned p"
    "\<And>p. p \<in> set (freelist s) \<Longrightarrow> p \<noteq> 0"
    "\<And>p. p \<in> set (freelist s) \<Longrightarrow> p \<notin> pt_pages (mem s) r"
  using assms unfolding alloc_ok_def by blast+

lemma in_pt_pages: "t = r \<or> t \<in> l1_tables m r \<Longrightarrow> t \<in> pt_pages m r"
  by (auto simp: pt_pages_def)

lemma walk_step_valid:
  assumes "read64 (mem s) (t + 8 * i) AND PTE_V \<noteq> 0"
  shows "walk_step s t i alloc = (s, Some (PTE2PA (read64 (mem s) (t + 8 * i))))"
  using assms by (simp add: walk_step_def)

lemma walk_step_cases:
  assumes ok: "alloc_ok s r" and step: "walk_step s t i alloc = (s', res)"
  obtains
    (valid) "read64 (mem s) (t + 8 * i) AND PTE_V \<noteq> 0" "s' = s"
      "res = Some (PTE2PA (read64 (mem s) (t + 8 * i)))"
  | (fail) "read64 (mem s) (t + 8 * i) AND PTE_V = 0" "s' = s" "res = None"
      "alloc = 0 \<or> freelist s = []"
  | (fresh) pg rest where "read64 (mem s) (t + 8 * i) AND PTE_V = 0" "alloc \<noteq> 0"
      "freelist s = pg # rest" "pg \<noteq> 0" "res = Some pg"
      "s' = \<lparr>mem = install (mem s) (t + 8 * i) pg, freelist = rest\<rparr>"
proof (cases "read64 (mem s) (t + 8 * i) AND PTE_V \<noteq> 0")
  case True
  then have "s' = s" "res = Some (PTE2PA (read64 (mem s) (t + 8 * i)))"
    using step by (auto simp: walk_step_def)
  with True show ?thesis by (rule valid)
next
  case inv: False
  then have inv': "read64 (mem s) (t + 8 * i) AND PTE_V = 0" by simp
  show ?thesis
  proof (cases "alloc = 0")
    case True
    then have "s' = s" "res = None" using step inv by (auto simp: walk_step_def)
    then show ?thesis using inv' True by (intro fail) simp_all
  next
    case al: False
    show ?thesis
    proof (cases "freelist s")
      case Nil
      then have "s' = s" "res = None" using step inv al by (auto simp: walk_step_def)
      then show ?thesis using inv' Nil by (intro fail) simp_all
    next
      case (Cons pg rest)
      then have pg: "pg \<noteq> 0" using alloc_okD(3) [OF ok, of pg] by simp
      have "res = Some pg" "s' = \<lparr>mem = install (mem s) (t + 8 * i) pg, freelist = rest\<rparr>"
        using step inv al Cons pg by (auto simp: walk_step_def)
      then show ?thesis using inv' al Cons pg by (intro fresh [of pg rest])
    qed
  qed
qed

lemma walk_step_inv:
  assumes wf: "pt_wf (mem s) r" and ok: "alloc_ok s r"
    and t: "t = r \<or> t \<in> l1_tables (mem s) r" and i: "i < 512"
    and step: "walk_step s t i alloc = (s', res)"
  shows "pt_wf (mem s') r" (is ?wf)
    and "alloc_ok s' r" (is ?ok)
    and "\<And>va. leaf (mem s') r va = leaf (mem s) r va"
    and "set (freelist s') \<union> pt_pages (mem s') r = set (freelist s) \<union> pt_pages (mem s) r" (is ?pages)
    and "\<exists>taken. freelist s = taken @ freelist s'" (is ?suffix)
    and "\<And>t'. res = Some t' \<Longrightarrow>
          read64 (mem s') (t + 8 * i) AND PTE_V \<noteq> 0 \<and> PTE2PA (read64 (mem s') (t + 8 * i)) = t' \<and>
          (t = r \<longrightarrow> t' \<in> l1_tables (mem s') r) \<and>
          (t \<in> l1_tables (mem s) r \<longrightarrow> t' \<in> l0_tables (mem s') r \<and> t \<in> l1_tables (mem s') r)"
    and "res = None \<Longrightarrow>
          s' = s \<and> read64 (mem s) (t + 8 * i) AND PTE_V = 0 \<and> (alloc = 0 \<or> freelist s = [])"
    and "\<And>a. PGROUNDDOWN a \<notin> insert t (set (freelist s)) \<Longrightarrow> mem s' a = mem s a"
    and "\<And>q j. pg_aligned q \<Longrightarrow> j < 512 \<Longrightarrow> q \<notin> set (freelist s) \<Longrightarrow> \<not> (q = t \<and> j = i) \<Longrightarrow>
          read64 (mem s') (q + 8 * j) = read64 (mem s) (q + 8 * j)"
proof -
  note w = pt_wfD [OF wf]
  have ta: "pg_aligned t" using t w(1) l1_aligned by auto
  have tp: "t \<in> pt_pages (mem s) r" using t by (rule in_pt_pages)
  from ok step have
    "?wf \<and> ?ok \<and> (\<forall>va. leaf (mem s') r va = leaf (mem s) r va) \<and> ?pages \<and> ?suffix \<and>
     (\<forall>t'. res = Some t' \<longrightarrow>
          read64 (mem s') (t + 8 * i) AND PTE_V \<noteq> 0 \<and> PTE2PA (read64 (mem s') (t + 8 * i)) = t' \<and>
          (t = r \<longrightarrow> t' \<in> l1_tables (mem s') r) \<and>
          (t \<in> l1_tables (mem s) r \<longrightarrow> t' \<in> l0_tables (mem s') r \<and> t \<in> l1_tables (mem s') r)) \<and>
     (res = None \<longrightarrow>
          s' = s \<and> read64 (mem s) (t + 8 * i) AND PTE_V = 0 \<and> (alloc = 0 \<or> freelist s = [])) \<and>
     (\<forall>a. PGROUNDDOWN a \<notin> insert t (set (freelist s)) \<longrightarrow> mem s' a = mem s a) \<and>
     (\<forall>q j. pg_aligned q \<longrightarrow> j < 512 \<longrightarrow> q \<notin> set (freelist s) \<longrightarrow> \<not> (q = t \<and> j = i) \<longrightarrow>
          read64 (mem s') (q + 8 * j) = read64 (mem s) (q + 8 * j))"
  proof (cases rule: walk_step_cases)
    case valid
    have "t = r \<longrightarrow> PTE2PA (read64 (mem s) (t + 8 * i)) \<in> l1_tables (mem s) r"
      using valid(1) l1_I [OF i] by auto
    moreover have "t \<in> l1_tables (mem s) r \<longrightarrow> PTE2PA (read64 (mem s) (t + 8 * i)) \<in> l0_tables (mem s) r"
      using valid(1) childrenI [OF i] l0_I by blast
    ultimately show ?thesis using valid wf ok by auto
  next
    case fail
    then show ?thesis using wf ok by auto
  next
    case (fresh pg rest)
    have pgin: "pg \<in> set (freelist s)" using fresh(3) by simp
    note pg = alloc_okD(2,3,4) [OF ok pgin]
    have pgt: "pg \<noteq> t" using pg(3) tp by auto
    have m': "mem s' = install (mem s) (t + 8 * i) pg" and f': "freelist s' = rest"
      using fresh(6) by simp_all
    have wf': "pt_wf (mem s') r" unfolding m'
      using t pt_wf_install_root [OF wf i _ pg(1,3,2)] pt_wf_install_l1 [OF wf _ i _ pg(1,3,2)] fresh(1)
      by blast
    have pages: "pt_pages (mem s') r = insert pg (pt_pages (mem s) r)" unfolding m'
      using t pt_pages_install_root [OF wf i _ pg(1,3)] pt_pages_install_l1 [OF wf _ i _ pg(1,3)] fresh(1)
      by blast
    have d: "distinct (pg # rest)" using alloc_okD(1) [OF ok] fresh(3) by simp
    have ok': "alloc_ok s' r"
      unfolding alloc_ok_def f' pages
      using d alloc_okD(2,3,4) [OF ok] fresh(3) by auto
    have lf: "\<forall>va. leaf (mem s') r va = leaf (mem s) r va" unfolding m'
      using leaf_install [OF wf t i fresh(1) pg(1,3)] by simp
    have pg': "set (freelist s') \<union> pt_pages (mem s') r = set (freelist s) \<union> pt_pages (mem s) r"
      unfolding f' pages fresh(3) by auto
    have sfx: "\<exists>taken. freelist s = taken @ freelist s'" unfolding f' fresh(3) by (rule exI [of _ "[pg]"]) simp
    note rd = read64_install [OF ta i pg(1) pgt]
    have e: "read64 (mem s') (t + 8 * i) = PA2PTE pg OR PTE_V" unfolding m' by (simp add: rd [OF ta i])
    have ev: "read64 (mem s') (t + 8 * i) AND PTE_V \<noteq> 0" unfolding e by (simp add: PA2PTE_V PTE_V_def)
    have epa: "PTE2PA (read64 (mem s') (t + 8 * i)) = pg" unfolding e using pg(1) by (simp add: PTE2PA_PA2PTE PTE_V_def)
    have r1: "t = r \<longrightarrow> pg \<in> l1_tables (mem s') r" unfolding m'
      using install_root_tables(1) [OF wf i _ pg(1,3)] fresh(1) by auto
    have r2: "t \<in> l1_tables (mem s) r \<longrightarrow> pg \<in> l0_tables (mem s') r \<and> t \<in> l1_tables (mem s') r" unfolding m'
      using install_l1_tables(1,2) [OF wf _ i _ pg(1,3)] fresh(1) by auto
    have fr: "\<forall>a. PGROUNDDOWN a \<notin> insert t (set (freelist s)) \<longrightarrow> mem s' a = mem s a"
    proof (intro allI impI)
      fix a assume "PGROUNDDOWN a \<notin> insert t (set (freelist s))"
      then have "PGROUNDDOWN a \<noteq> pg" "PGROUNDDOWN a \<noteq> t" using pgin by auto
      then show "mem s' a = mem s a" unfolding m' by (rule install_frame [OF ta i pg(1)])
    qed
    have fr2: "\<forall>q j. pg_aligned q \<longrightarrow> j < 512 \<longrightarrow> q \<notin> set (freelist s) \<longrightarrow> \<not> (q = t \<and> j = i) \<longrightarrow>
          read64 (mem s') (q + 8 * j) = read64 (mem s) (q + 8 * j)"
      unfolding m' using rd pgin by auto
    show ?thesis using wf' ok' lf pg' sfx ev epa r1 r2 fr fr2 fresh(5) by simp
  qed
  then show ?wf ?ok "\<And>va. leaf (mem s') r va = leaf (mem s) r va" ?pages ?suffix
    "\<And>t'. res = Some t' \<Longrightarrow>
          read64 (mem s') (t + 8 * i) AND PTE_V \<noteq> 0 \<and> PTE2PA (read64 (mem s') (t + 8 * i)) = t' \<and>
          (t = r \<longrightarrow> t' \<in> l1_tables (mem s') r) \<and>
          (t \<in> l1_tables (mem s) r \<longrightarrow> t' \<in> l0_tables (mem s') r \<and> t \<in> l1_tables (mem s') r)"
    "res = None \<Longrightarrow>
          s' = s \<and> read64 (mem s) (t + 8 * i) AND PTE_V = 0 \<and> (alloc = 0 \<or> freelist s = [])"
    "\<And>a. PGROUNDDOWN a \<notin> insert t (set (freelist s)) \<Longrightarrow> mem s' a = mem s a"
    "\<And>q j. pg_aligned q \<Longrightarrow> j < 512 \<Longrightarrow> q \<notin> set (freelist s) \<Longrightarrow> \<not> (q = t \<and> j = i) \<Longrightarrow>
          read64 (mem s') (q + 8 * j) = read64 (mem s) (q + 8 * j)"
    by blast+
qed

lemma slot_nonzero:
  assumes "pg_aligned t" "t \<noteq> 0" "j < 512"
  shows "t + 8 * j \<noteq> 0"
proof
  assume "t + 8 * j = 0"
  then have "unat t + 8 * unat j = 0" using unat_slot [OF assms(1,3)] by simp
  then show False using assms(2) by (simp add: unat_eq_0)
qed

lemma walk_inv:
  assumes wf: "pt_wf (mem s) r" and ok: "alloc_ok s r" and lt: "va < MAXVA"
    and wk: "walk s r va alloc = Inr (s', p)"
  shows "pt_wf (mem s') r" (is ?wf)
    and "alloc_ok s' r" (is ?ok)
    and "\<And>va'. leaf (mem s') r va' = leaf (mem s) r va'"
    and "set (freelist s') \<union> pt_pages (mem s') r = set (freelist s) \<union> pt_pages (mem s) r" (is ?pages)
    and "\<exists>taken. freelist s = taken @ freelist s'" (is ?suffix)
    and "p \<noteq> 0 \<Longrightarrow> pte_slot (mem s') r va = Some p"
    and "p = 0 \<Longrightarrow> pte_slot (mem s') r va = None \<and> (alloc = 0 \<or> freelist s' = [])"
    and "\<And>a. PGROUNDDOWN a \<notin> pt_pages (mem s) r \<union> set (freelist s) \<Longrightarrow> mem s' a = mem s a"
proof -
  note One_nat_def [simp del]
  have nle: "\<not> MAXVA \<le> va" using lt by simp
  obtain s1 res1 where st1: "walk_step s r (PX 2 va) alloc = (s1, res1)" by (cases "walk_step s r (PX 2 va) alloc")
  note i1 = walk_step_inv [OF wf ok disjI1 [OF refl] PX_lt st1]
  have "?wf \<and> ?ok \<and> (\<forall>va'. leaf (mem s') r va' = leaf (mem s) r va') \<and> ?pages \<and> ?suffix \<and>
    (p \<noteq> 0 \<longrightarrow> pte_slot (mem s') r va = Some p) \<and>
    (p = 0 \<longrightarrow> pte_slot (mem s') r va = None \<and> (alloc = 0 \<or> freelist s' = [])) \<and>
    (\<forall>a. PGROUNDDOWN a \<notin> pt_pages (mem s) r \<union> set (freelist s) \<longrightarrow> mem s' a = mem s a)"
  proof (cases res1)
    case None
    then have e: "s' = s1" "p = 0" using wk st1 nle by (auto simp: walk_eq_walk_spec walk_spec_def)
    have n: "s1 = s" "read64 (mem s) (r + 8 * PX 2 va) AND PTE_V = 0" "alloc = 0 \<or> freelist s = []"
      using i1(7) None by auto
    have "pte_slot (mem s) r va = None" using n(2) by (simp add: pte_slot_def)
    then show ?thesis using e n wf ok by auto
  next
    case (Some t1)
    note a1 = i1(6) [OF Some]
    have t1: "t1 \<in> l1_tables (mem s1) r" using a1 by simp
    obtain s2 res2 where st2: "walk_step s1 t1 (PX 1 va) alloc = (s2, res2)"
      by (cases "walk_step s1 t1 (PX 1 va) alloc")
    note i2 = walk_step_inv [OF i1(1) i1(2) disjI2 [OF t1] PX_lt st2]
    note w1 = pt_wfD [OF i1(1)]
    have rt1: "r \<noteq> t1" using t1 w1(5) by auto
    have rfree: "r \<notin> set (freelist s1)" using alloc_okD(4) [OF i1(2)] by (auto simp: pt_pages_def)
    have e2: "read64 (mem s2) (r + 8 * PX 2 va) = read64 (mem s1) (r + 8 * PX 2 va)"
      using i2(9) [OF w1(1) PX_lt rfree] rt1 by simp
    have lf: "\<forall>va'. leaf (mem s2) r va' = leaf (mem s) r va'" using i1(3) i2(3) by simp
    have pgs: "set (freelist s2) \<union> pt_pages (mem s2) r = set (freelist s) \<union> pt_pages (mem s) r"
      using i1(4) i2(4) by simp
    have sfx: "\<exists>taken. freelist s = taken @ freelist s2"
      using i1(5) i2(5) by (metis append.assoc)
    have t1p: "t1 \<in> pt_pages (mem s1) r" using t1 by (simp add: pt_pages_def)
    have fr: "\<forall>a. PGROUNDDOWN a \<notin> pt_pages (mem s) r \<union> set (freelist s) \<longrightarrow> mem s2 a = mem s a"
    proof (intro allI impI)
      fix a assume h: "PGROUNDDOWN a \<notin> pt_pages (mem s) r \<union> set (freelist s)"
      then have h1: "PGROUNDDOWN a \<notin> insert r (set (freelist s))" by (auto simp: pt_pages_def)
      have "PGROUNDDOWN a \<notin> set (freelist s1) \<union> pt_pages (mem s1) r" using h i1(4) by auto
      then have h2: "PGROUNDDOWN a \<notin> insert t1 (set (freelist s1))" using t1p by auto
      show "mem s2 a = mem s a" using i1(8) [OF h1] i2(8) [OF h2] by simp
    qed
    show ?thesis
    proof (cases res2)
      case None
      then have e: "s' = s2" "p = 0" using wk st1 st2 Some nle by (auto simp: walk_eq_walk_spec walk_spec_def)
      have n: "s2 = s1" "read64 (mem s1) (t1 + 8 * PX 1 va) AND PTE_V = 0" "alloc = 0 \<or> freelist s1 = []"
        using i2(7) None by auto
      have "pte_slot (mem s1) r va = None" using n(2) a1 by (simp add: pte_slot_def Let_def)
      then show ?thesis using e n i2(1,2) lf pgs sfx fr by auto
    next
      case (Some t0)
      note a2 = i2(6) [OF Some]
      have e: "s' = s2" "p = t0 + 8 * PX 0 va"
        using wk st1 st2 Some \<open>res1 = Some t1\<close> nle by (auto simp: walk_eq_walk_spec walk_spec_def)
      have t0: "t0 \<in> l0_tables (mem s2) r" using a2 t1 by simp
      have "t0 \<noteq> 0" using pt_wfD(4) [OF i2(1)] t0 by auto
      then have pz: "p \<noteq> 0" unfolding e using slot_nonzero [OF l0_aligned [OF t0] _ PX_lt] by simp
      have a1v: "read64 (mem s2) (r + 8 * PX 2 va) AND PTE_V \<noteq> 0"
        and a1p: "PTE2PA (read64 (mem s2) (r + 8 * PX 2 va)) = t1"
        using a1 unfolding e2 by blast+
      have a2v: "read64 (mem s2) (t1 + 8 * PX 1 va) AND PTE_V \<noteq> 0"
        and a2p: "PTE2PA (read64 (mem s2) (t1 + 8 * PX 1 va)) = t0"
        using a2 by blast+
      have "pte_slot (mem s2) r va = Some (t0 + 8 * PX 0 va)"
        by (rule pte_slot_SomeI [OF a1v a1p a2v a2p])
      then show ?thesis using e pz i2(1,2) lf pgs sfx fr by auto
    qed
  qed
  then show ?wf ?ok "\<And>va'. leaf (mem s') r va' = leaf (mem s) r va'" ?pages ?suffix
    "p \<noteq> 0 \<Longrightarrow> pte_slot (mem s') r va = Some p"
    "p = 0 \<Longrightarrow> pte_slot (mem s') r va = None \<and> (alloc = 0 \<or> freelist s' = [])"
    "\<And>a. PGROUNDDOWN a \<notin> pt_pages (mem s) r \<union> set (freelist s) \<Longrightarrow> mem s' a = mem s a"
    by blast+
qed

lemma PX_take_bit: "PX l va = take_bit 9 (drop_bit (12 + 9 * l) va)"
  by (simp add: PX_def PGSHIFT_def n511 take_bit_eq_mask)

lemma bit_PX: "bit (PX l va) n \<longleftrightarrow> n < 9 \<and> bit va (12 + 9 * l + n)"
  by (auto simp: PX_take_bit bit_simps)

lemma MAXVA_bits: assumes "va < MAXVA" "bit va n" shows "n < 38"
proof (rule ccontr)
  assume n: "\<not> n < 38"
  have "drop_bit 38 va = 0" using assms(1)
    by (simp add: MAXVA_val drop_bit_eq_div word_eq_iff_unsigned [where ?'a = nat] unat_div word_less_nat_alt)
  moreover have "bit (drop_bit 38 va) (n - 38)" using assms(2) n by (simp add: bit_simps)
  ultimately show False by simp
qed

lemma PX_eq_page:
  assumes "va < MAXVA" "va' < MAXVA" "PX 2 va = PX 2 va'" "PX 1 va = PX 1 va'" "PX 0 va = PX 0 va'"
  shows "PGROUNDDOWN va = PGROUNDDOWN va'"
proof -
  have "bit va n = bit va' n" if n: "12 \<le> n" for n
  proof -
    consider "n < 21" | "21 \<le> n" "n < 30" | "30 \<le> n" "n < 39" | "39 \<le> n" by linarith
    then show ?thesis
    proof cases
      case 1
      have "bit (PX 0 va) (n - 12) = bit (PX 0 va') (n - 12)" using assms(5) by simp
      moreover have "n - 12 < 9" "12 + (n - 12) = n" using 1 n by linarith+
      ultimately show ?thesis by (simp add: bit_PX)
    next
      case 2
      have "bit (PX 1 va) (n - 21) = bit (PX 1 va') (n - 21)" using assms(4) by simp
      moreover have "n - 21 < 9" "21 + (n - 21) = n" using 2 by linarith+
      ultimately show ?thesis by (simp add: bit_PX)
    next
      case 3
      have "bit (PX 2 va) (n - 30) = bit (PX 2 va') (n - 30)" using assms(3) by simp
      moreover have "n - 30 < 9" "30 + (n - 30) = n" using 3 by linarith+
      ultimately show ?thesis by (simp add: bit_PX)
    next
      case 4
      then show ?thesis using MAXVA_bits [OF assms(1), of n] MAXVA_bits [OF assms(2), of n] by auto
    qed
  qed
  then show ?thesis
    unfolding PGROUNDDOWN_shift by (intro bit_word_eqI) (auto simp: bit_simps)
qed

lemma slot_eq_iff:
  assumes "pg_aligned p" "pg_aligned q" "i < 512" "j < 512"
  shows "p + 8 * i = q + 8 * j \<longleftrightarrow> p = q \<and> i = j"
proof
  assume "p + 8 * i = q + 8 * j"
  then have "(p + 8 * i + 0) - (q + 8 * j) < 8" by simp
  then show "p = q \<and> i = j" using slot_byte_in_slot [OF assms, of 0] by simp
qed simp

lemma pte_slot_l0:
  assumes "pte_slot m r va = Some p"
  obtains t1 t0 where "t1 \<in> l1_tables m r" "t0 \<in> children m t1" "t0 \<in> l0_tables m r"
    "p = t0 + 8 * PX 0 va"
    "t1 = PTE2PA (read64 m (r + 8 * PX 2 va))" "t0 = PTE2PA (read64 m (t1 + 8 * PX 1 va))"
proof -
  note d = pte_slot_SomeD [OF assms]
  let ?t1 = "PTE2PA (read64 m (r + 8 * PX 2 va))"
  let ?t0 = "PTE2PA (read64 m (?t1 + 8 * PX 1 va))"
  have 1: "?t1 \<in> l1_tables m r" using d(1) l1_I [OF PX_lt] by simp
  have 2: "?t0 \<in> children m ?t1" using d(2) childrenI [OF PX_lt] by simp
  show ?thesis using that [OF 1 2 l0_I [OF 1 2] d(3)] by simp
qed

lemma pte_slot_inj:
  assumes wf: "pt_wf m r" and a: "pte_slot m r va = Some p" and b: "pte_slot m r va' = Some p"
  shows "PX 2 va = PX 2 va' \<and> PX 1 va = PX 1 va' \<and> PX 0 va = PX 0 va'"
proof -
  note w = pt_wfD [OF wf]
  note da = pte_slot_SomeD [OF a] and db = pte_slot_SomeD [OF b]
  from a obtain t1 t0 where A: "t1 \<in> l1_tables m r" "t0 \<in> children m t1" "t0 \<in> l0_tables m r"
    "p = t0 + 8 * PX 0 va"
    "t1 = PTE2PA (read64 m (r + 8 * PX 2 va))" "t0 = PTE2PA (read64 m (t1 + 8 * PX 1 va))"
    by (rule pte_slot_l0)
  from b obtain t1' t0' where B: "t1' \<in> l1_tables m r" "t0' \<in> children m t1'" "t0' \<in> l0_tables m r"
    "p = t0' + 8 * PX 0 va'"
    "t1' = PTE2PA (read64 m (r + 8 * PX 2 va'))" "t0' = PTE2PA (read64 m (t1' + 8 * PX 1 va'))"
    by (rule pte_slot_l0)
  have "t0 + 8 * PX 0 va = t0' + 8 * PX 0 va'" using A(4) B(4) by simp
  then have "t0 = t0' \<and> PX 0 va = PX 0 va'"
    by (rule iffD1 [OF slot_eq_iff [OF l0_aligned [OF A(3)] l0_aligned [OF B(3)] PX_lt PX_lt]])
  then have e0: "t0 = t0'" "PX 0 va = PX 0 va'" by simp_all
  have e1: "t1 = t1'" using w(10) [OF A(1) B(1)] A(2) B(2) e0(1) by auto
  have v1: "read64 m (t1 + 8 * PX 1 va) AND PTE_V \<noteq> 0" "read64 m (t1 + 8 * PX 1 va') AND PTE_V \<noteq> 0"
    using da(2) db(2) A(5) B(5) e1 by simp_all
  have p1: "PX 1 va = PX 1 va'"
    using child_injD [OF w(9) [OF A(1)] PX_lt PX_lt v1] A(6) B(6) e0(1) e1 by simp
  have p2: "PX 2 va = PX 2 va'"
    using child_injD [OF w(8) PX_lt PX_lt da(1) db(1)] A(5) B(5) e1 by simp
  show ?thesis using p2 p1 e0(2) by simp
qed

lemma pte_slot_page_inj:
  assumes "pt_wf m r" "pte_slot m r va = Some p" "pte_slot m r va' = Some p" "va < MAXVA" "va' < MAXVA"
  shows "PGROUNDDOWN va = PGROUNDDOWN va'"
  using pte_slot_inj [OF assms(1,2,3)] PX_eq_page [OF assms(4,5)] by simp

lemma child_inj_cong:
  assumes "\<And>j. j < 512 \<Longrightarrow> read64 m' (q + 8 * j) = read64 m (q + 8 * j)"
  shows "child_inj m' q = child_inj m q"
  by (simp add: child_inj_def assms cong: conj_cong)

lemma pt_wf_cong:
  assumes l1: "l1_tables m' r = l1_tables m r"
    and ch: "\<And>c. c \<in> l1_tables m r \<Longrightarrow> children m' c = children m c"
    and ir: "child_inj m' r = child_inj m r"
    and ic: "\<And>c. c \<in> l1_tables m r \<Longrightarrow> child_inj m' c = child_inj m c"
  shows "l0_tables m' r = l0_tables m r" "pt_pages m' r = pt_pages m r" "pt_wf m' r = pt_wf m r"
proof -
  show l0: "l0_tables m' r = l0_tables m r" unfolding l0_tables_def l1 using ch by simp
  show "pt_pages m' r = pt_pages m r" unfolding pt_pages_def l1 l0 ..
  show "pt_wf m' r = pt_wf m r" unfolding pt_wf_def l1 l0 ir using ch ic by auto
qed

lemma write_leaf:
  assumes wf: "pt_wf m r" and sl: "pte_slot m r va = Some p"
  shows "l1_tables (write64 m p v) r = l1_tables m r" (is ?l1)
    and "l0_tables (write64 m p v) r = l0_tables m r" (is ?l0)
    and "pt_pages (write64 m p v) r = pt_pages m r" (is ?pp)
    and "pt_wf (write64 m p v) r" (is ?wf)
    and "\<And>va'. pte_slot (write64 m p v) r va' = pte_slot m r va'"
    and "\<And>va'. leaf (write64 m p v) r va' =
           (if pte_slot m r va' = Some p then (if v AND PTE_V = 0 then None else Some v)
            else leaf m r va')"
    and "\<And>a. PGROUNDDOWN a \<notin> l0_tables m r \<Longrightarrow> write64 m p v a = m a"
proof -
  note One_nat_def [simp del]
  note w = pt_wfD [OF wf]
  from sl obtain t1 t0 where T: "t1 \<in> l1_tables m r" "t0 \<in> children m t1" "t0 \<in> l0_tables m r"
    "p = t0 + 8 * PX 0 va"
    "t1 = PTE2PA (read64 m (r + 8 * PX 2 va))" "t0 = PTE2PA (read64 m (t1 + 8 * PX 1 va))"
    by (rule pte_slot_l0)
  have t0a: "pg_aligned t0" using T(3) by (rule l0_aligned)
  have rd: "read64 (write64 m p v) (q + 8 * j)
            = (if q = t0 \<and> j = PX 0 va then v else read64 m (q + 8 * j))"
    if "pg_aligned q" "j < 512" for q j
    unfolding T(4) by (rule read64_write64_slot [OF that(1) t0a that(2) PX_lt])
  have up: "read64 (write64 m p v) (q + 8 * j) = read64 m (q + 8 * j)"
    if "q = r \<or> q \<in> l1_tables m r" "j < 512" for q j
  proof -
    have "pg_aligned q" "q \<noteq> t0" using that(1) w(1,6,7) l1_aligned T(3) by auto
    then show ?thesis using rd [OF _ that(2)] by simp
  qed
  have chr: "children (write64 m p v) r = children m r" by (rule children_cong) (simp add: up)
  have chc: "children (write64 m p v) c = children m c" if "c \<in> l1_tables m r" for c
    by (rule children_cong) (simp add: up that)
  show l1: ?l1 unfolding l1_tables_def by (rule chr)
  have ir: "child_inj (write64 m p v) r = child_inj m r" by (rule child_inj_cong) (simp add: up)
  have ic: "child_inj (write64 m p v) c = child_inj m c" if "c \<in> l1_tables m r" for c
    by (rule child_inj_cong) (simp add: up that)
  note cg = pt_wf_cong [OF l1 chc ir ic]
  show ?l0 by (rule cg(1))
  show ?pp by (rule cg(2))
  show ?wf using cg(3) wf by simp
  show ps: "pte_slot (write64 m p v) r va' = pte_slot m r va'" for va'
  proof -
    have e2: "read64 (write64 m p v) (r + 8 * PX 2 va') = read64 m (r + 8 * PX 2 va')"
      by (rule up) (simp_all add: PX_lt)
    show ?thesis
    proof (cases "read64 m (r + 8 * PX 2 va') AND PTE_V = 0")
      case True
      then show ?thesis using e2 by (simp add: pte_slot_def)
    next
      case False
      then have "PTE2PA (read64 m (r + 8 * PX 2 va')) \<in> l1_tables m r" using l1_I [OF PX_lt] by simp
      then have "read64 (write64 m p v) (PTE2PA (read64 m (r + 8 * PX 2 va')) + 8 * PX 1 va')
                 = read64 m (PTE2PA (read64 m (r + 8 * PX 2 va')) + 8 * PX 1 va')"
        by (intro up) (simp_all add: PX_lt)
      then show ?thesis using e2 by (simp add: pte_slot_def Let_def)
    qed
  qed
  show "leaf (write64 m p v) r va' =
           (if pte_slot m r va' = Some p then (if v AND PTE_V = 0 then None else Some v)
            else leaf m r va')" for va'
  proof (cases "pte_slot m r va'")
    case None
    then show ?thesis by (simp add: leaf_def ps)
  next
    case (Some p')
    then obtain t1' t0' where T': "t0' \<in> l0_tables m r" "p' = t0' + 8 * PX 0 va'"
      by (rule pte_slot_l0)
    have a': "pg_aligned t0'" using T'(1) by (rule l0_aligned)
    have eq: "p' = p \<longleftrightarrow> t0' = t0 \<and> PX 0 va' = PX 0 va"
      unfolding T(4) T'(2) by (rule slot_eq_iff [OF a' t0a PX_lt PX_lt])
    have "read64 (write64 m p v) p' = (if p' = p then v else read64 m p')"
      using rd [OF a' PX_lt, of 0 va'] eq unfolding T'(2) by simp
    then show ?thesis using Some by (cases "p' = p") (simp_all add: leaf_def ps)
  qed
  show "write64 m p v a = m a" if "PGROUNDDOWN a \<notin> l0_tables m r" for a
  proof -
    have "\<not> a - p < 8"
    proof
      assume h: "a - p < 8"
      have "PGROUNDDOWN (t0 + 8 * PX 0 va + (a - p)) = t0"
        by (rule PGROUNDDOWN_slot_byte [OF t0a PX_lt h])
      moreover have "t0 + 8 * PX 0 va + (a - p) = a" unfolding T(4) [symmetric] by simp
      ultimately have "PGROUNDDOWN a = t0" by simp
      then show False using that T(3) by simp
    qed
    then show ?thesis by (simp add: write64_def)
  qed
qed

lemma bit_PGROUNDDOWN: "bit (PGROUNDDOWN va) n \<longleftrightarrow> 12 \<le> n \<and> bit va n"
proof (cases "n < 64")
  case True
  then show ?thesis unfolding PGROUNDDOWN_shift by (simp add: bit_simps cong: conj_cong) 
next
  case False
  then have "\<not> bit va n" "\<not> bit (PGROUNDDOWN va) n" using bit_imp_le_length [of _ n] by fastforce+
  then show ?thesis by simp
qed

lemma PX_PGROUNDDOWN: "PX l (PGROUNDDOWN va) = PX l va"
proof (rule bit_word_eqI)
  fix n
  show "bit (PX l (PGROUNDDOWN va)) n = bit (PX l va) n"
    unfolding bit_PX bit_PGROUNDDOWN by simp
qed

lemma PX_same_page: "PGROUNDDOWN va' = PGROUNDDOWN va \<Longrightarrow> PX l va' = PX l va"
  using PX_PGROUNDDOWN [of l va] PX_PGROUNDDOWN [of l va'] by simp

lemma pte_slot_same_page:
  assumes "PGROUNDDOWN va' = PGROUNDDOWN va"
  shows "pte_slot m r va' = pte_slot m r va"
  unfolding pte_slot_def
    PX_same_page [OF assms, of 0] PX_same_page [OF assms, of 1] PX_same_page [OF assms, of 2] ..

lemma leaf_same_page:
  assumes "PGROUNDDOWN va' = PGROUNDDOWN va"
  shows "leaf m r va' = leaf m r va"
  unfolding leaf_def pte_slot_same_page [OF assms] ..

lemma l0_subset_pt_pages: "l0_tables m r \<subseteq> pt_pages m r"
  by (auto simp: pt_pages_def)

lemma mappages_step:
  assumes wf: "pt_wf (mem s) r" and ok: "alloc_ok s r"
    and wk: "walk s r a 1 = Inr (s1, pte)" and nz: "pte \<noteq> 0"
    and inval: "read64 (mem s1) pte AND PTE_V = 0" and v: "v AND PTE_V \<noteq> 0"
    and s2: "s2 = s1\<lparr>mem := write64 (mem s1) pte v\<rparr>"
  shows "pt_wf (mem s2) r" (is ?wf)
    and "alloc_ok s2 r" (is ?ok)
    and "set (freelist s2) \<union> pt_pages (mem s2) r = set (freelist s) \<union> pt_pages (mem s) r" (is ?pages)
    and "\<exists>taken. freelist s = taken @ freelist s2" (is ?suffix)
    and "\<And>va'. va' < MAXVA \<Longrightarrow> leaf (mem s2) r va' =
           (if PGROUNDDOWN va' = PGROUNDDOWN a then Some v else leaf (mem s) r va')"
    and "leaf (mem s) r a = None"
    and "\<And>x. PGROUNDDOWN x \<notin> pt_pages (mem s) r \<union> set (freelist s) \<Longrightarrow> mem s2 x = mem s x"
proof -
  have lt: "a < MAXVA" using wk by (rule walk_Inr_lt)
  note i = walk_inv [OF wf ok lt wk]
  have sl: "pte_slot (mem s1) r a = Some pte" using i(6) nz by simp
  note wl = write_leaf [OF i(1) sl, where v = v]
  have m2: "mem s2 = write64 (mem s1) pte v" and f2: "freelist s2 = freelist s1" using s2 by simp_all
  show ?wf unfolding m2 by (rule wl(4))
  show ?ok using i(2) unfolding alloc_ok_def m2 f2 wl(3) .
  show ?pages unfolding m2 f2 wl(3) by (rule i(4))
  show ?suffix unfolding f2 by (rule i(5))
  have old: "leaf (mem s1) r a = None" using sl inval by (simp add: leaf_def)
  then show "leaf (mem s) r a = None" using i(3) by simp
  show "leaf (mem s2) r va' =
           (if PGROUNDDOWN va' = PGROUNDDOWN a then Some v else leaf (mem s) r va')"
    if "va' < MAXVA" for va'
  proof -
    have "pte_slot (mem s1) r va' = Some pte \<longleftrightarrow> PGROUNDDOWN va' = PGROUNDDOWN a"
    proof
      assume "pte_slot (mem s1) r va' = Some pte"
      then show "PGROUNDDOWN va' = PGROUNDDOWN a" by (rule pte_slot_page_inj [OF i(1) _ sl that lt])
    next
      assume "PGROUNDDOWN va' = PGROUNDDOWN a"
      then show "pte_slot (mem s1) r va' = Some pte" using pte_slot_same_page sl by metis
    qed
    then show ?thesis unfolding m2 wl(6) using v i(3) by simp
  qed
  show "mem s2 x = mem s x" if "PGROUNDDOWN x \<notin> pt_pages (mem s) r \<union> set (freelist s)" for x
  proof -
    have "PGROUNDDOWN x \<notin> pt_pages (mem s1) r" using that i(4) by auto
    then have "PGROUNDDOWN x \<notin> l0_tables (mem s1) r" using l0_subset_pt_pages by blast
    then show ?thesis unfolding m2 using wl(7) i(8) [OF that] by simp
  qed
qed

lemma or_V_valid: "(x OR PTE_V) AND PTE_V \<noteq> 0"
proof -
  have "(x OR PTE_V) AND PTE_V = PTE_V"
    by (rule bit_word_eqI) (auto simp: bit_simps)
  then show ?thesis by (simp add: PTE_V_def)
qed

lemma pg_aligned_plus_PGSIZE: "pg_aligned a \<Longrightarrow> a < MAXVA \<Longrightarrow> pg_aligned (a + PGSIZE)"
  by (simp add: pg_aligned_unat unat_plus_PGSIZE)

lemma aligned_range_split:
  assumes "pg_aligned a" "pg_aligned x" "a < MAXVA"
  shows "a \<le> x \<longleftrightarrow> x = a \<or> a + PGSIZE \<le> x"
proof -
  obtain A where A: "unat a = 4096 * A" using assms(1) by (rule pg_alignedE)
  obtain X where X: "unat x = 4096 * X" using assms(2) by (rule pg_alignedE)
  have "a \<le> x \<longleftrightarrow> A \<le> X" by (simp add: word_le_nat_alt A X)
  moreover have "x = a \<longleftrightarrow> X = A" by (simp add: word_unat_eq_iff A X)
  moreover have "a + PGSIZE \<le> x \<longleftrightarrow> A + 1 \<le> X"
    by (simp add: word_le_nat_alt unat_plus_PGSIZE [OF assms(3)] A X) linarith
  ultimately show ?thesis by auto
qed

lemma le_plus_PGSIZE: "a < MAXVA \<Longrightarrow> a \<le> a + PGSIZE"
  by (simp add: word_le_nat_alt unat_plus_PGSIZE)

lemma plus_PGSIZE_neq: "a < MAXVA \<Longrightarrow> a + PGSIZE \<noteq> a"
  by (simp add: word_unat_eq_iff unat_plus_PGSIZE)

definition in_range :: "u64 \<Rightarrow> u64 \<Rightarrow> u64 \<Rightarrow> bool" where
  "in_range a last' va \<longleftrightarrow> a \<le> PGROUNDDOWN va \<and> PGROUNDDOWN va \<le> last'"

lemma in_range_step:
  assumes "pg_aligned a" "a < MAXVA" "a + PGSIZE \<le> last'"
  shows "in_range a last' va \<longleftrightarrow> PGROUNDDOWN va = a \<or> in_range (a + PGSIZE) last' va"
proof -
  have al: "a \<le> last'" using le_plus_PGSIZE [OF assms(2)] assms(3) by simp
  note sp = aligned_range_split [OF assms(1) pg_aligned_PGROUNDDOWN assms(2), of va]
  show ?thesis unfolding in_range_def using sp al by auto
qed

lemma in_range_single:
  "in_range a a va \<longleftrightarrow> PGROUNDDOWN va = a"
  unfolding in_range_def by auto

definition pt_grow :: "kstate \<Rightarrow> kstate \<Rightarrow> u64 \<Rightarrow> bool" where
  "pt_grow s s' r \<longleftrightarrow>
     pt_wf (mem s') r \<and> alloc_ok s' r \<and>
     set (freelist s') \<union> pt_pages (mem s') r = set (freelist s) \<union> pt_pages (mem s) r \<and>
     (\<exists>taken. freelist s = taken @ freelist s') \<and>
     (\<forall>x. PGROUNDDOWN x \<notin> pt_pages (mem s) r \<union> set (freelist s) \<longrightarrow> mem s' x = mem s x)"

lemma pt_growI:
  assumes "pt_wf (mem s') r" "alloc_ok s' r"
    "set (freelist s') \<union> pt_pages (mem s') r = set (freelist s) \<union> pt_pages (mem s) r"
    "\<exists>taken. freelist s = taken @ freelist s'"
    "\<And>x. PGROUNDDOWN x \<notin> pt_pages (mem s) r \<union> set (freelist s) \<Longrightarrow> mem s' x = mem s x"
  shows "pt_grow s s' r"
  using assms unfolding pt_grow_def by blast

lemma pt_growD:
  assumes "pt_grow s s' r"
  shows "pt_wf (mem s') r" "alloc_ok s' r"
    "set (freelist s') \<union> pt_pages (mem s') r = set (freelist s) \<union> pt_pages (mem s) r"
    "\<exists>taken. freelist s = taken @ freelist s'"
    "\<And>x. PGROUNDDOWN x \<notin> pt_pages (mem s) r \<union> set (freelist s) \<Longrightarrow> mem s' x = mem s x"
  using assms unfolding pt_grow_def by blast+

lemma pt_grow_trans:
  assumes a: "pt_grow s s1 r" and b: "pt_grow s1 s2 r"
  shows "pt_grow s s2 r"
proof (rule pt_growI)
  note A = pt_growD [OF a] and B = pt_growD [OF b]
  show "pt_wf (mem s2) r" "alloc_ok s2 r" by (rule B)+
  show "set (freelist s2) \<union> pt_pages (mem s2) r = set (freelist s) \<union> pt_pages (mem s) r"
    using A(3) B(3) by simp
  show "\<exists>taken. freelist s = taken @ freelist s2" using A(4) B(4) by (metis append.assoc)
  show "mem s2 x = mem s x" if "PGROUNDDOWN x \<notin> pt_pages (mem s) r \<union> set (freelist s)" for x
  proof -
    have "PGROUNDDOWN x \<notin> pt_pages (mem s1) r \<union> set (freelist s1)" using that A(3) by auto
    then show ?thesis using A(5) [OF that] B(5) by simp
  qed
qed

lemma walk_grow:
  assumes "pt_wf (mem s) r" "alloc_ok s r" "walk s r va alloc = Inr (s', p)"
  shows "pt_grow s s' r"
  by (rule pt_growI) (rule walk_inv [OF assms(1,2) walk_Inr_lt [OF assms(3)] assms(3)])+

lemma mappages_loop_inv_aux:
  "pt_wf (mem s) r \<Longrightarrow> alloc_ok s r \<Longrightarrow> pg_aligned a \<Longrightarrow>
   mappages_loop s r a last' pa perm = Inr (s', rc) \<Longrightarrow>
   pt_grow s s' r \<and>
   (rc = 0 \<longrightarrow> a \<le> last' \<and> last' < MAXVA \<and>
      (\<forall>va'. va' < MAXVA \<longrightarrow> leaf (mem s') r va' =
         (if in_range a last' va'
          then Some (PA2PTE (pa + (PGROUNDDOWN va' - a)) OR scast perm OR PTE_V)
          else leaf (mem s) r va')) \<and>
      (\<forall>va'. va' < MAXVA \<longrightarrow> in_range a last' va' \<longrightarrow> leaf (mem s) r va' = None)) \<and>
   (rc \<noteq> 0 \<longrightarrow> rc = - 1 \<and> freelist s' = [] \<and>
      (a = last' \<longrightarrow> (\<forall>va'. leaf (mem s') r va' = leaf (mem s) r va')))"
proof (induction s r a last' pa perm arbitrary: s' rc rule: mappages_loop.induct)
  case (1 s r a last' pa perm)
  note wf = "1.prems"(1) and ok = "1.prems"(2) and al = "1.prems"(3) and run = "1.prems"(4)
  obtain s1 pte where wk: "walk s r a 1 = Inr (s1, pte)"
    using run by (subst (asm) mappages_loop.simps) (auto split: sum.splits)
  have lt: "a < MAXVA" using wk by (rule walk_Inr_lt)
  note i = walk_inv [OF wf ok lt wk]
  show ?case
  proof (cases "pte = 0")
    case True
    then have e: "s' = s1" "rc = - 1"
      using run wk by (subst (asm) mappages_loop.simps, simp)+
    have "freelist s1 = []" using i(7) [OF True] by simp
    then show ?thesis using e walk_grow [OF wf ok wk] i(3) by simp
  next
    case nz: False
    have inval: "read64 (mem s1) pte AND PTE_V = 0"
      using run wk nz by (subst (asm) mappages_loop.simps) (auto split: if_splits)
    define v where "v = PA2PTE pa OR scast perm OR PTE_V"
    define s2 where "s2 = s1\<lparr>mem := write64 (mem s1) pte v\<rparr>"
    have vv: "v AND PTE_V \<noteq> 0"
      unfolding v_def using or_V_valid [of "PA2PTE pa OR scast perm"] by (simp add: or.assoc)
    note st = mappages_step [OF wf ok wk nz inval vv s2_def]
    have g2: "pt_grow s s2 r" by (rule pt_growI) (rule st)+
    have pa0: "PGROUNDDOWN a = a" using al by (rule PGROUNDDOWN_idem)
    have st5: "leaf (mem s2) r va' = (if PGROUNDDOWN va' = a then Some v else leaf (mem s) r va')"
      if "va' < MAXVA" for va'
      using st(5) [OF that] unfolding pa0 .
    have st6: "leaf (mem s) r va' = None" if "PGROUNDDOWN va' = a" for va'
    proof -
      have "PGROUNDDOWN va' = PGROUNDDOWN a" using that pa0 by simp
      then show ?thesis using st(6) leaf_same_page [of va' a "mem s" r] by simp
    qed
    show ?thesis
    proof (cases "a = last'")
      case True
      then have e: "s' = s2" "rc = 0"
        using run wk nz inval unfolding s2_def v_def
        by (subst (asm) mappages_loop.simps, simp add: Let_def)+
      have "leaf (mem s2) r va' =
         (if in_range a last' va'
          then Some (PA2PTE (pa + (PGROUNDDOWN va' - a)) OR scast perm OR PTE_V)
          else leaf (mem s) r va')" if "va' < MAXVA" for va'
      proof -
        have "in_range a last' va' \<longleftrightarrow> PGROUNDDOWN va' = a"
          using True in_range_single [of a va'] by simp
        then show ?thesis using st5 [OF that] by (simp add: v_def)
      qed
      moreover have "leaf (mem s) r va' = None" if "in_range a last' va'" for va'
      proof -
        have "PGROUNDDOWN va' = a" using that True in_range_single [of a va'] by simp
        then show ?thesis by (rule st6)
      qed
      ultimately show ?thesis using e g2 True lt by simp
    next
      case ne: False
      have rec: "mappages_loop s2 r (a + PGSIZE) last' (pa + PGSIZE) perm = Inr (s', rc)"
        using run wk nz inval ne unfolding s2_def v_def
        by (subst (asm) mappages_loop.simps) (simp add: Let_def)
      have IH: "pt_grow s2 s' r \<and>
         (rc = 0 \<longrightarrow> a + PGSIZE \<le> last' \<and> last' < MAXVA \<and>
            (\<forall>va'. va' < MAXVA \<longrightarrow> leaf (mem s') r va' =
               (if in_range (a + PGSIZE) last' va'
                then Some (PA2PTE (pa + PGSIZE + (PGROUNDDOWN va' - (a + PGSIZE))) OR scast perm OR PTE_V)
                else leaf (mem s2) r va')) \<and>
            (\<forall>va'. va' < MAXVA \<longrightarrow> in_range (a + PGSIZE) last' va' \<longrightarrow> leaf (mem s2) r va' = None)) \<and>
         (rc \<noteq> 0 \<longrightarrow> rc = - 1 \<and> freelist s' = [] \<and>
            (a + PGSIZE = last' \<longrightarrow> (\<forall>va'. leaf (mem s') r va' = leaf (mem s2) r va')))"
        by (rule "1.IH" [OF wk refl nz _ _ ne st(1) st(2) pg_aligned_plus_PGSIZE [OF al lt] rec])
           (use inval in \<open>simp_all add: s2_def v_def\<close>)
      have g: "pt_grow s s' r" using pt_grow_trans [OF g2] IH by blast
      show ?thesis
      proof (cases "rc = 0")
        case False
        then show ?thesis using g IH ne by simp
      next
        case True
        then have r1: "a + PGSIZE \<le> last'" "last' < MAXVA" using IH by simp_all
        have al': "a \<le> last'" using le_plus_PGSIZE [OF lt] r1(1) by simp
        note rs = in_range_step [OF al lt r1(1)]
        have np: "\<not> in_range (a + PGSIZE) last' va'" if "PGROUNDDOWN va' = a" for va'
          unfolding in_range_def that
          using le_plus_PGSIZE [OF lt] plus_PGSIZE_neq [OF lt] by auto
        have L: "leaf (mem s') r va' =
           (if in_range a last' va'
            then Some (PA2PTE (pa + (PGROUNDDOWN va' - a)) OR scast perm OR PTE_V)
            else leaf (mem s) r va')" if h: "va' < MAXVA" for va'
        proof (cases "PGROUNDDOWN va' = a")
          case pa: True
          have "leaf (mem s') r va' = leaf (mem s2) r va'" using IH True h np [OF pa] by simp
          also have "\<dots> = Some v" using st5 [OF h] pa by simp
          finally show ?thesis using rs [of va'] pa by (simp add: v_def)
        next
          case False
          have "in_range a last' va' = in_range (a + PGSIZE) last' va'" using rs [of va'] False by simp
          moreover have "leaf (mem s2) r va' = leaf (mem s) r va'" using st5 [OF h] False by simp
          ultimately show ?thesis using IH True h by simp
        qed
        have N: "leaf (mem s) r va' = None" if h: "va' < MAXVA" "in_range a last' va'" for va'
        proof (cases "PGROUNDDOWN va' = a")
          case True
          then show ?thesis by (rule st6)
        next
          case False
          then have "in_range (a + PGSIZE) last' va'" using rs [of va'] h(2) by simp
          then have "leaf (mem s2) r va' = None" using IH True h(1) by simp
          then show ?thesis using st5 [OF h(1)] False by simp
        qed
        show ?thesis using g True al' r1(2) L N by simp
      qed
    qed
  qed
qed

lemma pte_slot_nonzero:
  assumes "pt_wf m r" "pte_slot m r va = Some p"
  shows "p \<noteq> 0"
proof -
  from assms(2) obtain t1 t0 where T: "t0 \<in> l0_tables m r" "p = t0 + 8 * PX 0 va"
    by (rule pte_slot_l0)
  have "t0 \<noteq> 0" using pt_wfD(4) [OF assms(1)] T(1) by auto
  then show ?thesis unfolding T(2) by (rule slot_nonzero [OF l0_aligned [OF T(1)] _ PX_lt])
qed

lemma walkaddr_leaf:
  assumes "pt_wf (mem s) r" "va < MAXVA"
  shows "walkaddr s r va =
     Inr (s, case leaf (mem s) r va of None \<Rightarrow> 0
             | Some e \<Rightarrow> if e AND PTE_U = 0 then 0 else PTE2PA e)"
proof (cases "pte_slot (mem s) r va")
  case None
  then show ?thesis using assms(2) by (simp add: walkaddr_def walk_noalloc leaf_def)
next
  case (Some p)
  then have "p \<noteq> 0" using pte_slot_nonzero [OF assms(1)] by simp
  moreover have "\<not> MAXVA \<le> va" using assms(2) by simp
  ultimately show ?thesis using assms(2) Some by (simp add: walkaddr_def walk_noalloc leaf_def)
qed

lemma PGROUNDDOWN_mono: "a \<le> b \<Longrightarrow> PGROUNDDOWN a \<le> PGROUNDDOWN b"
  by (simp add: word_le_nat_alt unat_PGROUNDDOWN div_le_mono)

lemma low_bits_lt:
  fixes x :: "'a::len word"
  assumes "\<And>n. bit x n \<Longrightarrow> n < k"
  shows "unat x < 2 ^ k"
proof -
  have "take_bit k x = x" by (rule bit_word_eqI) (auto simp: bit_simps dest: assms)
  then have "unat x = take_bit k (unat x)" by (metis unsigned_take_bit_eq)
  then show ?thesis by (metis take_bit_nat_less_exp)
qed

lemma flags_bit32:
  assumes "(perm :: 32 word) < 1024" "bit perm n"
  shows "n < 10"
proof (rule ccontr)
  assume n: "\<not> n < 10"
  have "drop_bit 10 perm = 0" using assms(1)
    by (simp add: drop_bit_eq_div word_eq_iff_unsigned [where ?'a = nat] unat_div word_less_nat_alt)
  moreover have "bit (drop_bit 10 perm) (n - 10)" using assms(2) n by (simp add: bit_simps)
  ultimately show False by simp
qed

lemma scast_flags:
  assumes "(perm :: 32 word) < 1024"
  shows "(scast perm :: u64) < 1024"
proof -
  have "unat (scast perm :: u64) < 2 ^ 10"
  proof (rule low_bits_lt)
    fix n assume "bit (scast perm :: u64) n"
    then have "bit perm n \<or> bit perm 31" by (auto simp: bit_word_scast_iff)
    moreover have "\<not> bit perm 31" using flags_bit32 [OF assms, of 31] by auto
    ultimately show "n < 10" using flags_bit32 [OF assms] by blast
  qed
  then show ?thesis by (simp add: word_less_nat_alt)
qed

lemma PGROUNDDOWN_plus_aligned:
  assumes "pg_aligned k"
  shows "PGROUNDDOWN (pa + k) = PGROUNDDOWN pa + k"
proof -
  obtain K where K: "unat k = 4096 * K" using assms by (rule pg_alignedE)
  have "pa + k - (PGROUNDDOWN pa + k) < PGSIZE" using page_offset_lt [of pa] by simp
  moreover have "pg_aligned (PGROUNDDOWN pa + k)"
  proof -
    have "(unat pa div 4096 * 4096 + 4096 * K) mod 2 ^ 64 mod 4096
          = (unat pa div 4096 * 4096 + 4096 * K) mod 4096"
      by (rule mod_mod_cancel) simp
    also have "\<dots> = 0" by simp
    finally show ?thesis
      unfolding pg_aligned_unat unat_word_ariths K unat_PGROUNDDOWN by simp
  qed
  ultimately show ?thesis using in_page_iff by blast
qed

lemma or_flags_lt:
  assumes "(x :: u64) < 1024" "y < 1024"
  shows "x OR y < 1024"
proof -
  have "unat (x OR y) < 2 ^ 10"
    by (rule low_bits_lt) (auto simp: bit_simps dest: flags_bit [OF assms(1)] flags_bit [OF assms(2)])
  then show ?thesis by (simp add: word_less_nat_alt)
qed

lemma pg_aligned_diff:
  assumes "pg_aligned a" "pg_aligned b" "b \<le> a"
  shows "pg_aligned (a - b)"
proof -
  obtain A where A: "unat a = 4096 * A" using assms(1) by (rule pg_alignedE)
  obtain B where B: "unat b = 4096 * B" using assms(2) by (rule pg_alignedE)
  have "unat (a - b) = 4096 * A - 4096 * B" using assms(3) by (simp add: unat_sub A B)
  also have "\<dots> = 4096 * (A - B)" by simp
  finally show ?thesis by (simp add: pg_aligned_unat)
qed

lemma unat_range_last:
  assumes "size' \<noteq> 0" "unat va + unat size' \<le> 2 ^ 64"
  shows "unat (va + size' - 1 :: u64) = unat va + unat size' - 1"
proof -
  have 1: "unat (size' - 1) = unat size' - 1" using assms(1) by (rule unat_minus_one)
  have "0 < unat size'" using assms(1) by (simp add: unat_gt_0)
  then have "unat va + unat (size' - 1) < 18446744073709551616" using assms(2) 1 by simp
  then have 2: "unat (va + (size' - 1)) = unat va + unat (size' - 1)" by (simp add: unat_word_ariths)
  have "unat (va + size' - 1) = unat (va + (size' - 1))" by (simp add: add_diff_eq)
  also have "\<dots> = unat va + (unat size' - 1)" unfolding 2 1 ..
  also have "\<dots> = unat va + unat size' - 1" using \<open>0 < unat size'\<close> by simp
  finally show ?thesis .
qed

lemma mappages_inv:
  assumes wf: "pt_wf (mem s) r" and ok: "alloc_ok s r"
    and run: "mappages s r va size' pa perm = Inr (s', rc)"
  shows "pt_grow s s' r"
    and "rc = 0 \<Longrightarrow> PGROUNDDOWN va \<le> PGROUNDDOWN (va + size' - 1) \<and> PGROUNDDOWN (va + size' - 1) < MAXVA"
    and "\<And>va'. rc = 0 \<Longrightarrow> va' < MAXVA \<Longrightarrow> leaf (mem s') r va' =
         (if in_range (PGROUNDDOWN va) (PGROUNDDOWN (va + size' - 1)) va'
          then Some (PA2PTE (pa + (PGROUNDDOWN va' - PGROUNDDOWN va)) OR scast perm OR PTE_V)
          else leaf (mem s) r va')"
    and "\<And>va'. rc = 0 \<Longrightarrow> va' < MAXVA \<Longrightarrow> in_range (PGROUNDDOWN va) (PGROUNDDOWN (va + size' - 1)) va' \<Longrightarrow>
          leaf (mem s) r va' = None"
    and "rc \<noteq> 0 \<Longrightarrow> rc = - 1 \<and> freelist s' = []"
    and "\<And>va'. rc \<noteq> 0 \<Longrightarrow> PGROUNDDOWN va = PGROUNDDOWN (va + size' - 1) \<Longrightarrow>
          leaf (mem s') r va' = leaf (mem s) r va'"
    and "size' \<noteq> 0"
proof -
  show sz: "size' \<noteq> 0" using run by (auto simp: mappages_def split: if_splits)
  then have lp: "mappages_loop s r (PGROUNDDOWN va) (PGROUNDDOWN (va + size' - 1)) pa perm = Inr (s', rc)"
    using run by (simp add: mappages_def)
  note i = mappages_loop_inv_aux [OF wf ok pg_aligned_PGROUNDDOWN lp]
  show "pt_grow s s' r" using i by blast
  show "rc = 0 \<Longrightarrow> PGROUNDDOWN va \<le> PGROUNDDOWN (va + size' - 1) \<and> PGROUNDDOWN (va + size' - 1) < MAXVA"
    using i by blast
  show "\<And>va'. rc = 0 \<Longrightarrow> va' < MAXVA \<Longrightarrow> leaf (mem s') r va' =
         (if in_range (PGROUNDDOWN va) (PGROUNDDOWN (va + size' - 1)) va'
          then Some (PA2PTE (pa + (PGROUNDDOWN va' - PGROUNDDOWN va)) OR scast perm OR PTE_V)
          else leaf (mem s) r va')"
    using i by blast
  show "\<And>va'. rc = 0 \<Longrightarrow> va' < MAXVA \<Longrightarrow> in_range (PGROUNDDOWN va) (PGROUNDDOWN (va + size' - 1)) va' \<Longrightarrow>
          leaf (mem s) r va' = None"
    using i by blast
  show "rc \<noteq> 0 \<Longrightarrow> rc = - 1 \<and> freelist s' = []" using i by blast
  show "\<And>va'. rc \<noteq> 0 \<Longrightarrow> PGROUNDDOWN va = PGROUNDDOWN (va + size' - 1) \<Longrightarrow>
          leaf (mem s') r va' = leaf (mem s) r va'"
    using i by blast
qed

lemma mappages_walkaddr_gen:
  assumes wf: "pt_wf (mem s) r" and ok: "alloc_ok s r"
    and run: "mappages s r va size' pa perm = Inr (s', 0)"
    and range: "unat va + unat size' \<le> 2 ^ 64"
    and perm: "perm < 1024" "(scast perm :: u64) AND PTE_U \<noteq> 0"
    and a: "pg_aligned a'" "va \<le> a'" "unat a' < unat va + unat size'"
  shows "walkaddr s' r a' = Inr (s', PGROUNDDOWN pa + (a' - PGROUNDDOWN va)) \<and>
         (pg_aligned va \<and> pg_aligned pa \<longrightarrow> walkaddr s' r a' = Inr (s', pa + (a' - va)))"
proof -
  let ?a0 = "PGROUNDDOWN va" and ?last = "PGROUNDDOWN (va + size' - 1)"
  note i = mappages_inv [OF wf ok run]
  have bnd: "?a0 \<le> ?last" "?last < MAXVA" using i(2) by simp_all
  have pa': "PGROUNDDOWN a' = a'" using a(1) by (rule PGROUNDDOWN_idem)
  have lo: "?a0 \<le> a'" using PGROUNDDOWN_le [of va] a(2) by simp
  have "a' \<le> va + size' - 1"
    using a(3) by (simp add: word_le_nat_alt unat_range_last [OF i(7) range])
  then have hi: "a' \<le> ?last" using PGROUNDDOWN_mono [of a' "va + size' - 1"] pa' by simp
  have inr: "in_range ?a0 ?last a'" unfolding in_range_def pa' using lo hi by simp
  have lt: "a' < MAXVA" using hi bnd(2) by simp
  define e where "e = PA2PTE (pa + (a' - ?a0)) OR (scast perm OR PTE_V)"
  have lf: "leaf (mem s') r a' = Some e" using i(3) [OF refl lt] inr pa' by (simp add: e_def)
  have fl: "(scast perm OR PTE_V :: u64) < 1024"
    by (rule or_flags_lt [OF scast_flags [OF perm(1)]]) (simp add: PTE_V_def)
  have u: "e AND PTE_U \<noteq> 0"
  proof -
    have "e AND PTE_U = (scast perm OR PTE_V) AND PTE_U"
      unfolding e_def by (rule PA2PTE_and_flags) (simp add: PTE_U_def)
    also have "\<dots> = scast perm AND PTE_U"
      by (rule bit_word_eqI) (auto simp: bit_simps PTE_V_def PTE_U_def)
    finally show ?thesis using perm(2) by simp
  qed
  have al: "pg_aligned (a' - ?a0)" by (rule pg_aligned_diff [OF a(1) pg_aligned_PGROUNDDOWN lo])
  have pa: "PTE2PA e = PGROUNDDOWN pa + (a' - ?a0)"
    unfolding e_def PTE2PA_PA2PTE_shift drop_bit_10_flags [OF fl]
    by (simp add: PGROUNDDOWN_plus_aligned [OF al])
  have w: "walkaddr s' r a' = Inr (s', PGROUNDDOWN pa + (a' - ?a0))"
    using walkaddr_leaf [OF pt_growD(1) [OF i(1)] lt] lf u pa by simp
  moreover have "walkaddr s' r a' = Inr (s', pa + (a' - va))" if "pg_aligned va" "pg_aligned pa"
    using w PGROUNDDOWN_idem [OF that(1)] PGROUNDDOWN_idem [OF that(2)] by simp
  ultimately show ?thesis by simp
qed
















lemma memmove_frame:
  assumes "pg_aligned pg" "PGROUNDDOWN x \<noteq> pg"
  shows "memmove m pg src PGSIZE x = m x"
  using in_page_iff [OF assms(1), of x] assms(2) by (simp add: memmove_def)






















lemma walk_existing:
  assumes lt: "va < MAXVA" and sl: "pte_slot (mem s) r va = Some q"
  shows "walk s r va alloc = Inr (s, q)"
  using assms
  by (simp add: walk_eq_walk_spec walk_spec_def walk_step_def pte_slot_def Let_def not_le
      split: if_splits)

lemma walk_behaviour_gen:
  "walk s r va alloc = walk_spec s r va alloc \<and>
   (MAXVA \<le> va \<longrightarrow> walk s r va alloc = Inl (Panic ''walk'')) \<and>
   (va < MAXVA \<longrightarrow>
      (\<forall>q. pte_slot (mem s) r va = Some q \<longrightarrow> walk s r va alloc = Inr (s, q)) \<and>
      (alloc = 0 \<and> pte_slot (mem s) r va = None \<longrightarrow> walk s r va alloc = Inr (s, 0)) \<and>
      (pt_wf (mem s) r \<and> alloc_ok s r \<longrightarrow>
        (\<exists>s' p. walk s r va alloc = Inr (s', p) \<and>
           (p \<noteq> 0 \<longrightarrow> pte_slot (mem s') r va = Some p) \<and>
           (p = 0 \<longrightarrow> pte_slot (mem s') r va = None \<and> (alloc = 0 \<or> freelist s' = [])) \<and>
           pt_wf (mem s') r \<and> alloc_ok s' r \<and>
           (\<forall>va'. leaf (mem s') r va' = leaf (mem s) r va') \<and>
           set (freelist s') \<union> pt_pages (mem s') r = set (freelist s) \<union> pt_pages (mem s) r)))"
proof (intro conjI impI allI)
  show "walk s r va alloc = walk_spec s r va alloc" by (rule walk_eq_walk_spec)
next
  assume "MAXVA \<le> va" then show "walk s r va alloc = Inl (Panic ''walk'')"
    by (simp add: walk_def)
next
  fix q assume "va < MAXVA" "pte_slot (mem s) r va = Some q"
  then show "walk s r va alloc = Inr (s, q)" by (rule walk_existing)
next
  assume "va < MAXVA" "alloc = 0 \<and> pte_slot (mem s) r va = None"
  then show "walk s r va alloc = Inr (s, 0)" by (simp add: walk_noalloc)
next
  assume lt: "va < MAXVA" and h: "pt_wf (mem s) r \<and> alloc_ok s r"
  obtain s' p where wk: "walk s r va alloc = Inr (s', p)"
    using lt by (cases "walk_levels 2 s r va alloc") (simp add: walk_def not_le)
  note i = walk_inv [OF conjunct1 [OF h] conjunct2 [OF h] lt wk]
  show "\<exists>s' p. walk s r va alloc = Inr (s', p) \<and>
           (p \<noteq> 0 \<longrightarrow> pte_slot (mem s') r va = Some p) \<and>
           (p = 0 \<longrightarrow> pte_slot (mem s') r va = None \<and> (alloc = 0 \<or> freelist s' = [])) \<and>
           pt_wf (mem s') r \<and> alloc_ok s' r \<and>
           (\<forall>va'. leaf (mem s') r va' = leaf (mem s) r va') \<and>
           set (freelist s') \<union> pt_pages (mem s') r = set (freelist s) \<union> pt_pages (mem s) r"
    using wk i(1,2,3,4,6,7) by blast
qed

section \<open>A concrete state for examples\<close>

text \<open>A concrete machine state for examples: memory all zero, an empty root table at
  0x1000 and free pages at 0x2000 and 0x3000.\<close>

definition ex_state :: kstate where
  "ex_state = \<lparr>mem = \<lambda>_. 0, freelist = [0x2000, 0x3000]\<rparr>"

lemma read64_zero_mem: "read64 (\<lambda>_. 0) a = 0"
  by (simp add: read64_def)

lemma children_zero_mem: "children (\<lambda>_. 0) p = {}"
  by (simp add: children_def read64_zero_mem)

lemma pt_wf_zero_mem: "pg_aligned r \<Longrightarrow> r \<noteq> 0 \<Longrightarrow> pt_wf (\<lambda>_. 0) r"
  by (simp add: pt_wf_def l1_tables_def l0_tables_def child_inj_def children_zero_mem read64_zero_mem)

lemma pt_pages_zero_mem: "pt_pages (\<lambda>_. 0) r = {r}"
  by (simp add: pt_pages_def l1_tables_def l0_tables_def children_zero_mem)

lemma ex_state_ok: "pt_wf (mem ex_state) 0x1000" "alloc_ok ex_state 0x1000"
  by (simp_all add: ex_state_def pt_wf_zero_mem pt_pages_zero_mem alloc_ok_def pg_aligned_def PGSIZE_def)

lemmas eval_defs = walk_eq_walk_spec walk_spec_def MAXVA_def PX_def PGSHIFT_def walk_step_def
  PTE_V_def install_def PGSIZE_def PA2PTE_def PTE2PA_def read64_def write64_def memset_def
  PGROUNDDOWN_def

lemma ex_mappages_aligned: "\<exists>s'. mappages ex_state 0x1000 0x4000 0x2000 0x8000 0x12 = Inr (s', 0)"
  apply (simp add: mappages_def ex_state_def eval_defs)
  apply (subst mappages_loop.simps, simp add: eval_defs)
  apply (subst mappages_loop.simps, simp add: eval_defs)
  done

definition ex_unaligned :: kstate where
  "ex_unaligned = fst (projr (mappages ex_state 0x1000 0x1001 0x1000 0x5000 0x12))"

lemma ex_mappages_unaligned: "\<exists>s'. mappages ex_state 0x1000 0x1001 0x1000 0x5000 0x12 = Inr (s', 0)"
  apply (simp add: mappages_def ex_state_def eval_defs)
  apply (subst mappages_loop.simps, simp add: eval_defs)
  apply (subst mappages_loop.simps, simp add: eval_defs)
  done




lemma ex_walk_alloc:
  "\<exists>s'. walk ex_state 0x1000 0 1 = Inr (s', 0x3000) \<and> freelist s' = []"
  by (simp add: ex_state_def eval_defs)

lemma pte_slot_zero_mem: "pte_slot (\<lambda>_. 0) r va = None"
  by (simp add: pte_slot_def read64_zero_mem)

section \<open>Verified properties\<close>

subsection \<open>Addresses at or beyond MAXVA\<close>

text \<open>Claim C10.  For every page table and every virtual address at or beyond \<open>MAXVA\<close>,
  \<^verbatim>\<open>walkaddr\<close> returns the failure value 0 and leaves the state alone.  It does not call
  \<^verbatim>\<open>walk\<close>, which on the same address would stop the kernel with \<^verbatim>\<open>panic("walk")\<close>.\<close>

theorem walkaddr_beyond_MAXVA:
  "MAXVA \<le> va \<Longrightarrow>
     walkaddr s pagetable va = Inr (s, 0) \<and> walk s pagetable va alloc = Inl (Panic ''walk'')"
  by (simp add: walkaddr_def walk_def)

theorem walkaddr_beyond_MAXVA_witness:
  "walkaddr \<lparr>mem = \<lambda>_. 0, freelist = []\<rparr> 0x1000 MAXVA
     = Inr (\<lparr>mem = \<lambda>_. 0, freelist = []\<rparr>, 0) \<and>
   walk \<lparr>mem = \<lambda>_. 0, freelist = []\<rparr> 0x1000 MAXVA 0 = Inl (Panic ''walk'')"
  using walkaddr_beyond_MAXVA [of MAXVA "\<lparr>mem = \<lambda>_. 0, freelist = []\<rparr>" "0x1000" 0]
  by simp

subsection \<open>Copies of length zero\<close>

text \<open>Claim C9.  With length 0, \<^verbatim>\<open>copyout\<close> and \<^verbatim>\<open>copyin\<close> return 0 for every page table
  and every address, mapped or not, in range or not.  The loop body is never entered: no
  translation is made and the state, page table included, is returned unchanged.\<close>

theorem copy_length_zero:
  "copyout s pagetable dstva src 0 = Inr (s, 0) \<and>
   copyin s pagetable dst srcva 0 = Inr (s, 0)"
  by (simp add: copyout.simps [of s pagetable dstva src 0]
                copyin.simps [of s pagetable dst srcva 0])

subsection \<open>Translation after mappages\<close>

text \<open>Claim C3, amended.  \<^verbatim>\<open>mappages\<close> works on whole pages: it maps the page containing
  \<open>va\<close> to the page containing \<open>pa\<close>, the next page to the next, and so on.  After a
  successful call on a well-formed table, with \<open>perm\<close> confined to the ten flag bits and
  containing \<open>PTE_U\<close>, \<^verbatim>\<open>walkaddr\<close> of every page-aligned address \<open>a'\<close> in
  \<open>[va, va + size)\<close> returns \<open>PGROUNDDOWN pa + (a' - PGROUNDDOWN va)\<close>.  When \<open>va\<close> and
  \<open>pa\<close> are page-aligned this is \<open>pa + (a' - va)\<close>, the address at the corresponding offset
  into \<open>pa\<close>.\<close>

theorem mappages_walkaddr:
  assumes "pt_wf (mem s) r" and "alloc_ok s r"
    and "mappages s r va size' pa perm = Inr (s', 0)"
    and "unat va + unat size' \<le> 2 ^ 64"
    and "perm < 1024" "(scast perm :: u64) AND PTE_U \<noteq> 0"
    and "pg_aligned a'" "va \<le> a'" "unat a' < unat va + unat size'"
  shows "walkaddr s' r a' = Inr (s', PGROUNDDOWN pa + (a' - PGROUNDDOWN va)) \<and>
         (pg_aligned va \<and> pg_aligned pa \<longrightarrow> walkaddr s' r a' = Inr (s', pa + (a' - va)))"
  using assms by (rule mappages_walkaddr_gen)

theorem mappages_walkaddr_witness:
  "\<exists>s'. mappages ex_state 0x1000 0x4000 0x2000 0x8000 0x12 = Inr (s', 0) \<and>
        walkaddr s' 0x1000 0x5000 = Inr (s', 0x9000)"
proof -
  obtain s' where run: "mappages ex_state 0x1000 0x4000 0x2000 0x8000 0x12 = Inr (s', 0)"
    using ex_mappages_aligned by blast
  have "walkaddr s' 0x1000 0x5000 = Inr (s', 0x9000)"
    using mappages_walkaddr [OF ex_state_ok run, of "0x5000"]
    by (simp add: pg_aligned_def PGSIZE_def PTE_U_def PGROUNDDOWN_def)
  with run show ?thesis by blast
qed

text \<open>With an unaligned \<open>va\<close> the offsets differ: mapping one page-size range from
  \<open>va = 0x1001\<close> to \<open>pa = 0x5000\<close> covers the pages 0x1000 and 0x2000; the page-aligned
  address 0x2000 lies in the range and translates to 0x6000, not to
  \<open>pa + (0x2000 - va) = 0x5fff\<close>.\<close>

theorem mappages_walkaddr_counterexample:
  "mappages ex_state 0x1000 0x1001 0x1000 0x5000 0x12 = Inr (ex_unaligned, 0) \<and>
   0x1001 \<le> (0x2000 :: u64) \<and> (0x2000 :: u64) - 0x1001 < 0x1000 \<and>
   walkaddr ex_unaligned 0x1000 0x2000 = Inr (ex_unaligned, 0x6000) \<and>
   (0x6000 :: u64) \<noteq> 0x5000 + (0x2000 - 0x1001)"
proof -
  obtain s' where run: "mappages ex_state 0x1000 0x1001 0x1000 0x5000 0x12 = Inr (s', 0)"
    using ex_mappages_unaligned by blast
  then have e: "ex_unaligned = s'" by (simp add: ex_unaligned_def)
  have "walkaddr s' 0x1000 0x2000 = Inr (s', 0x6000)"
    using mappages_walkaddr_gen [OF ex_state_ok run, of "0x2000"]
    by (simp add: pg_aligned_def PGSIZE_def PTE_U_def PGROUNDDOWN_def)
  with run e show ?thesis by simp
qed

subsection \<open>Install, then remove\<close>



subsection \<open>A failing uvmalloc\<close>



subsection \<open>The descent of walk\<close>

text \<open>Claim C8.  \<^verbatim>\<open>walk\<close> is the descent that the specification describes (\<open>walk_spec\<close>: two
  upper levels, each either following a valid entry, failing, or installing a fresh zeroed
  page).  For \<open>va\<close> at or beyond \<open>MAXVA\<close> it panics.  Below \<open>MAXVA\<close>: if both upper entries
  for \<open>va\<close> are valid it returns the address of the level-0 entry and changes nothing; if
  one is invalid and \<open>alloc\<close> is 0 it returns null and changes nothing; and on a well-formed
  table it always returns, the result being either the address of the level-0 entry for
  \<open>va\<close> in the table as it now is, or null, and null with \<open>alloc\<close> enabled only when the
  allocator is exhausted.  Pages taken from the allocator have become table nodes and no
  leaf entry has changed.\<close>

theorem walk_behaviour:
  "walk s r va alloc = walk_spec s r va alloc \<and>
   (MAXVA \<le> va \<longrightarrow> walk s r va alloc = Inl (Panic ''walk'')) \<and>
   (va < MAXVA \<longrightarrow>
      (\<forall>q. pte_slot (mem s) r va = Some q \<longrightarrow> walk s r va alloc = Inr (s, q)) \<and>
      (alloc = 0 \<and> pte_slot (mem s) r va = None \<longrightarrow> walk s r va alloc = Inr (s, 0)) \<and>
      (pt_wf (mem s) r \<and> alloc_ok s r \<longrightarrow>
        (\<exists>s' p. walk s r va alloc = Inr (s', p) \<and>
           (p \<noteq> 0 \<longrightarrow> pte_slot (mem s') r va = Some p) \<and>
           (p = 0 \<longrightarrow> pte_slot (mem s') r va = None \<and> (alloc = 0 \<or> freelist s' = [])) \<and>
           pt_wf (mem s') r \<and> alloc_ok s' r \<and>
           (\<forall>va'. leaf (mem s') r va' = leaf (mem s) r va') \<and>
           set (freelist s') \<union> pt_pages (mem s') r = set (freelist s) \<union> pt_pages (mem s) r)))"
  by (rule walk_behaviour_gen)

text \<open>On the empty root table at 0x1000 with free pages 0x2000 and 0x3000: address
  \<open>MAXVA\<close> panics, a lookup of address 0 without allocation returns null, a lookup with
  allocation uses both pages and returns the first slot of the second, and repeating that
  lookup in the new state returns the same slot.\<close>

theorem walk_behaviour_witness:
  "walk ex_state 0x1000 MAXVA 1 = Inl (Panic ''walk'') \<and>
   walk ex_state 0x1000 0 0 = Inr (ex_state, 0) \<and>
   (\<exists>s'. walk ex_state 0x1000 0 1 = Inr (s', 0x3000) \<and> freelist s' = [] \<and>
      pte_slot (mem s') 0x1000 0 = Some 0x3000 \<and> pt_wf (mem s') 0x1000 \<and>
      walk s' 0x1000 0 1 = Inr (s', 0x3000))"
proof -
  have lt: "(0::u64) < MAXVA" by (simp add: MAXVA_val)
  have none: "pte_slot (mem ex_state) 0x1000 0 = None"
    by (simp add: ex_state_def pte_slot_zero_mem)
  have a: "walk ex_state 0x1000 MAXVA 1 = Inl (Panic ''walk'')"
    using walk_behaviour [of ex_state "0x1000" MAXVA 1, THEN conjunct2] by simp
  have b: "walk ex_state 0x1000 0 0 = Inr (ex_state, 0)"
    using walk_behaviour [of ex_state "0x1000" 0 0, THEN conjunct2] lt none by simp
  obtain s1 where run: "walk ex_state 0x1000 0 1 = Inr (s1, 0x3000)" "freelist s1 = []"
    using ex_walk_alloc by blast
  have c: "pte_slot (mem s1) 0x1000 0 = Some 0x3000 \<and> pt_wf (mem s1) 0x1000"
    using walk_behaviour [of ex_state "0x1000" 0 1, THEN conjunct2] lt ex_state_ok run(1) by auto
  then have d: "walk s1 0x1000 0 1 = Inr (s1, 0x3000)"
    using walk_behaviour [of s1 "0x1000" 0 1, THEN conjunct2] lt by simp
  show ?thesis using a b c d run by blast
qed

end
